theory Spec2Isabelle
  imports Main "HOL-Library.Word"
begin

unbundle bit_operations_syntax

section \<open>Intel HFI driver (drivers/thermal/intel/intel_hfi.c)\<close>

subsection \<open>Task classification: the debouncer\<close>

text \<open>
  The three classification fields of \<^verbatim>\<open>struct task_struct\<close>. They are unsigned
  bit-fields declared outside this file; their values are kept as naturals. The
  observation \<^verbatim>\<open>new_ipcc\<close> is a \<^verbatim>\<open>u8\<close>, the local \<^verbatim>\<open>debounce_skip\<close> a \<^verbatim>\<open>u16\<close>
  whose truncation is written out.
\<close>

record task_struct =
  ipcc :: nat
  ipcc_tmp :: nat
  ipcc_cntr :: nat

definition CLASS_DEBOUNCER_SKIPS :: nat where
  "CLASS_DEBOUNCER_SKIPS = 4"

definition debounce_and_update_class :: "task_struct \<Rightarrow> 8 word \<Rightarrow> task_struct" where
  "debounce_and_update_class p new_ipcc =
     (if ipcc_tmp p \<noteq> unat new_ipcc
      then p\<lparr>ipcc_cntr := 1, ipcc_tmp := unat new_ipcc\<rparr>
      else
        (let debounce_skip = (ipcc_cntr p + 1) mod 2 ^ 16
         in (if debounce_skip < CLASS_DEBOUNCER_SKIPS
             then p\<lparr>ipcc_cntr := ipcc_cntr p + 1\<rparr>
             else p\<lparr>ipcc := unat new_ipcc\<rparr>)
            \<lparr>ipcc_tmp := unat new_ipcc\<rparr>))"

text \<open>
  The debounce step as the specification words it: on a repeated observation the counter
  is incremented, and the class is committed once the incremented counter has reached
  the threshold.
\<close>

definition debounce_spec :: "task_struct \<Rightarrow> 8 word \<Rightarrow> task_struct" where
  "debounce_spec p obs =
     (if unat obs \<noteq> ipcc_tmp p
      then p\<lparr>ipcc_cntr := 1, ipcc_tmp := unat obs\<rparr>
      else
        (let q = p\<lparr>ipcc_cntr := ipcc_cntr p + 1\<rparr>
         in (if CLASS_DEBOUNCER_SKIPS \<le> ipcc_cntr q then q\<lparr>ipcc := unat obs\<rparr> else q)
            \<lparr>ipcc_tmp := unat obs\<rparr>))"

text \<open>Successive invocations of the classifier on one task, oldest observation first.\<close>

definition classify :: "task_struct \<Rightarrow> 8 word list \<Rightarrow> task_struct" where
  "classify p obs = foldl debounce_and_update_class p obs"

text \<open>
  What the counter records along a run: it never exceeds the number of invocations so
  far, and that many of the most recent observations all equal \<^verbatim>\<open>ipcc_tmp\<close>.
\<close>

definition run_inv :: "task_struct \<Rightarrow> 8 word list \<Rightarrow> bool" where
  "run_inv p xs =
     (ipcc_cntr p \<le> length xs \<and>
      list_all (\<lambda>y. unat y = ipcc_tmp p) (take (ipcc_cntr p) (rev xs)))"

subsection \<open>Error numbers shared by both files\<close>

datatype errno = EAGAIN | ENOMEM | ENODEV | EINVAL | ENOSPC

fun errno_val :: "errno \<Rightarrow> int" where
  "errno_val EAGAIN = 11"
| "errno_val ENOMEM = 12"
| "errno_val ENODEV = 19"
| "errno_val EINVAL = 22"
| "errno_val ENOSPC = 28"

subsection \<open>IPC class scores\<close>

text \<open>
  \<^verbatim>\<open>struct hfi_features\<close>: the table geometry parsed once at boot. All fields are
  \<^verbatim>\<open>unsigned int\<close>; none of the arithmetic below can leave that range.
\<close>

record hfi_features =
  nr_classes :: nat
  nr_table_pages :: nat
  cpu_stride :: nat
  class_stride :: nat
  hdr_size :: nat

definition HFI_UNCLASSIFIED_DEFAULT :: "16 word" where
  "HFI_UNCLASSIFIED_DEFAULT = 1"

text \<open>
  Modelled from the spec: the macro \<^verbatim>\<open>IPC_CLASS_UNCLASSIFIED\<close> is declared outside this
  file; the specification gives it as the sentinel 0.
\<close>

definition IPC_CLASS_UNCLASSIFIED :: "16 word" where
  "IPC_CLASS_UNCLASSIFIED = 0"

text \<open>
  \<^verbatim>\<open>intel_hfi_get_ipcc_score\<close>. The globals it reads are arguments: \<^verbatim>\<open>nr_cpu_ids\<close>,
  \<^verbatim>\<open>hfi_features\<close>, and \<^verbatim>\<open>scores\<close>, which gives for each CPU the result of
  \<^verbatim>\<open>per_cpu_ptr(hfi_ipcc_scores, cpu)\<close> (\<open>None\<close> for a null pointer, otherwise the
  CPU's array of \<^verbatim>\<open>int\<close>). The function returns \<^verbatim>\<open>unsigned long\<close>: a negative error
  number and a score of type \<^verbatim>\<open>int\<close> are both converted to that type.
\<close>

definition intel_hfi_get_ipcc_score ::
  "nat \<Rightarrow> hfi_features \<Rightarrow> (nat \<Rightarrow> 32 word list option) \<Rightarrow> 16 word \<Rightarrow> int \<Rightarrow> 64 word" where
  "intel_hfi_get_ipcc_score nr_cpu_ids feat scores ipcc_class cpu =
     (if cpu < 0 \<or> int nr_cpu_ids \<le> cpu then word_of_int (- errno_val EINVAL)
      else
        (let ipcc1 = (if ipcc_class = IPC_CLASS_UNCLASSIFIED then HFI_UNCLASSIFIED_DEFAULT
                      else ipcc_class);
             hfi_class = ipcc1 - 1
         in if nr_classes feat \<le> unat hfi_class then word_of_int (- errno_val EINVAL)
            else
              (case scores (nat cpu) of
                 None \<Rightarrow> word_of_int (- errno_val ENODEV)
               | Some sc \<Rightarrow> scast (sc ! unat hfi_class))))"

subsection \<open>The update worker\<close>

definition HFI_MAX_THERM_NOTIFY_COUNT :: nat where
  "HFI_MAX_THERM_NOTIFY_COUNT = 16"

text \<open>\<^verbatim>\<open>struct hfi_cpu_data\<close>: one CPU's capabilities of one class in the table.\<close>

record hfi_cpu_data =
  perf_cap :: "8 word"
  ee_cap :: "8 word"

text \<open>
  \<^verbatim>\<open>struct thermal_genl_cpu_caps\<close>, the record handed to the thermal netlink layer. Its
  fields are \<^verbatim>\<open>int\<close>; the values stored here are a CPU number and a byte shifted left
  by two.
\<close>

record thermal_genl_cpu_caps =
  caps_cpu :: nat
  caps_performance :: nat
  caps_efficiency :: nat

text \<open>
  One call \<^verbatim>\<open>thermal_genl_cpu_capability_event(count, &cpu_caps[i])\<close>: the count and the
  \<^verbatim>\<open>count\<close> records starting at \<^verbatim>\<open>cpu_caps[i]\<close>.
\<close>

record capability_event =
  ev_count :: nat
  ev_caps :: "thermal_genl_cpu_caps list"

text \<open>
  A cpumask is a bitmap with one bit per possible CPU. \<^verbatim>\<open>cpumask_weight\<close> counts the set
  bits and \<^verbatim>\<open>for_each_cpu\<close> visits them in increasing order.
\<close>

type_synonym cpumask = "bool list"

definition cpumask_weight :: "cpumask \<Rightarrow> nat" where
  "cpumask_weight m = length (filter (\<lambda>b. b) m)"

definition for_each_cpu :: "cpumask \<Rightarrow> nat list" where
  "for_each_cpu m = filter (\<lambda>c. m ! c) [0..<length m]"

text \<open>
  \<^verbatim>\<open>struct hfi_instance\<close>: the two tables as lists of bytes, the CPUs of the package
  and whether another CPU holds \<^verbatim>\<open>event_lock\<close>. The timestamp is the first eight bytes
  of the local table (the union of \<^verbatim>\<open>local_table\<close> and \<^verbatim>\<open>timestamp\<close>).
\<close>

record hfi_instance =
  local_table :: "8 word list"
  hw_table :: "8 word list"
  cpus :: cpumask
  event_lock :: bool

text \<open>
  \<^verbatim>\<open>get_hfi_caps\<close> fills \<^verbatim>\<open>cpu_caps\<close> in the order of \<^verbatim>\<open>for_each_cpu\<close>. The argument
  \<open>row\<close> stands for the memory read \<^verbatim>\<open>hfi_instance->data + index * cpu_stride\<close> of
  the CPU's row in the local table. The per-class scores that \<^verbatim>\<open>set_hfi_ipcc_score\<close>
  publishes on the way are a separate store and do not influence \<^verbatim>\<open>cpu_caps\<close>.
\<close>

definition get_hfi_caps ::
  "(nat \<Rightarrow> hfi_cpu_data) \<Rightarrow> hfi_instance \<Rightarrow> thermal_genl_cpu_caps list" where
  "get_hfi_caps row inst =
     map (\<lambda>c. \<lparr>caps_cpu = c,
                caps_performance = unat (perf_cap (row c)) * 2 ^ 2,
                caps_efficiency = unat (ee_cap (row c)) * 2 ^ 2\<rparr>)
         (for_each_cpu (cpus inst))"

text \<open>
  The loop over complete chunks: it returns the final \<^verbatim>\<open>i\<close> and the calls made, oldest
  first.
\<close>

function complete_chunks ::
  "thermal_genl_cpu_caps list \<Rightarrow> nat \<Rightarrow> nat \<Rightarrow> capability_event list
   \<Rightarrow> nat \<times> capability_event list" where
  "complete_chunks cpu_caps cpu_count i evs =
     (if i + HFI_MAX_THERM_NOTIFY_COUNT \<le> cpu_count
      then complete_chunks cpu_caps cpu_count (i + HFI_MAX_THERM_NOTIFY_COUNT)
             (evs @ [\<lparr>ev_count = HFI_MAX_THERM_NOTIFY_COUNT,
                      ev_caps = take HFI_MAX_THERM_NOTIFY_COUNT (drop i cpu_caps)\<rparr>])
      else (i, evs))"
  by pat_completeness auto
termination
  by (relation "measure (\<lambda>(cpu_caps, cpu_count, i, evs). cpu_count - i)")
     (auto simp: HFI_MAX_THERM_NOTIFY_COUNT_def)

text \<open>
  \<^verbatim>\<open>update_capabilities\<close>: the calls one run makes. \<open>kcalloc_ok\<close> is whether the
  allocation of \<^verbatim>\<open>cpu_caps\<close> succeeds.
\<close>

definition update_capabilities ::
  "bool \<Rightarrow> (nat \<Rightarrow> hfi_cpu_data) \<Rightarrow> hfi_instance \<Rightarrow> capability_event list" where
  "update_capabilities kcalloc_ok row inst =
     (let cpu_count = cpumask_weight (cpus inst)
      in if cpu_count = 0 then []
         else if \<not> kcalloc_ok then []
         else
           (let cpu_caps = get_hfi_caps row inst;
                (i, cpu_count', evs) =
                  (if cpu_count < HFI_MAX_THERM_NOTIFY_COUNT then (0, cpu_count, [])
                   else (let (i, evs) = complete_chunks cpu_caps cpu_count 0 []
                         in (i, cpu_count - i, evs)))
            in if cpu_count' \<noteq> 0
               then evs @ [\<lparr>ev_count = cpu_count', ev_caps = take cpu_count' (drop i cpu_caps)\<rparr>]
               else evs))"

subsection \<open>The event handler\<close>

text \<open>
  The driver is x86 code and measures the HFI table in 4KB pages
  (\<^verbatim>\<open>nr_table_pages << PAGE_SHIFT\<close> bytes), so \<^verbatim>\<open>PAGE_SHIFT\<close> is 12.
\<close>

definition PAGE_SHIFT :: nat where
  "PAGE_SHIFT = 12"

definition BIT :: "nat \<Rightarrow> 64 word" where
  "BIT n = push_bit n 1"

definition THERM_STATUS_CLEAR_PKG_MASK :: "64 word" where
  "THERM_STATUS_CLEAR_PKG_MASK =
     BIT 1 OR BIT 3 OR BIT 5 OR BIT 7 OR BIT 9 OR BIT 11 OR BIT 26"

text \<open>
  Memory is a list of bytes. \<^verbatim>\<open>*(u64 *)p\<close> reads eight of them, least significant
  first; \<^verbatim>\<open>memcpy(dst, src, n)\<close> replaces the first \<open>n\<close> bytes of the destination.
\<close>

definition read_u64 :: "8 word list \<Rightarrow> 64 word" where
  "read_u64 bs = word_rcat (rev (take 8 bs))"

definition memcpy :: "8 word list \<Rightarrow> 8 word list \<Rightarrow> nat \<Rightarrow> 8 word list" where
  "memcpy dst src n = take n src @ drop n dst"

text \<open>What the handler does to the outside: the register write and the queued work.\<close>

datatype hfi_effect =
  Wrmsrl_package_therm_status "64 word"
| Queue_delayed_update_work

text \<open>
  The state the handler runs in: the instance linked to the interrupted CPU
  (\<^verbatim>\<open>info->hfi_instance\<close>, \<open>None\<close> when null) and the effects so far.
\<close>

record hfi_state =
  cpu_instance :: "hfi_instance option"
  effects :: "hfi_effect list"

text \<open>
  \<^verbatim>\<open>intel_hfi_process_event\<close>. \<open>hfi_updated\<close> is the bit
  \<^verbatim>\<open>PACKAGE_THERM_STATUS_HFI_UPDATED\<close>, defined outside this file. The address of a
  per-CPU variable is never null, so the test of \<^verbatim>\<open>info\<close> has no branch here. A failed
  \<^verbatim>\<open>raw_spin_trylock\<close> returns at once; a successful one is released on every path, which
  leaves \<open>event_lock\<close> as it was.
\<close>

definition intel_hfi_process_event ::
  "hfi_features \<Rightarrow> 64 word \<Rightarrow> 64 word \<Rightarrow> hfi_state \<Rightarrow> hfi_state" where
  "intel_hfi_process_event feat hfi_updated pkg_therm_status_msr_val st =
     (if pkg_therm_status_msr_val = 0 then st
      else
        (case cpu_instance st of
           None \<Rightarrow> st
         | Some inst \<Rightarrow>
             if event_lock inst then st
             else
               (let new_timestamp = read_u64 (hw_table inst)
                in if read_u64 (local_table inst) = new_timestamp then st
                   else
                     (let inst' = inst\<lparr>local_table :=
                            memcpy (local_table inst) (hw_table inst)
                              (nr_table_pages feat * 2 ^ PAGE_SHIFT)\<rparr>;
                          val = pkg_therm_status_msr_val AND
                                (THERM_STATUS_CLEAR_PKG_MASK AND NOT hfi_updated)
                      in st\<lparr>cpu_instance := Some inst',
                            effects := effects st @
                              [Wrmsrl_package_therm_status val,
                               Queue_delayed_update_work]\<rparr>))))"

text \<open>
  An instance as \<^verbatim>\<open>intel_hfi_online\<close> sets it up: at least one page, and both tables of
  the size the handler copies.
\<close>

definition instance_ok :: "hfi_features \<Rightarrow> hfi_instance \<Rightarrow> bool" where
  "instance_ok feat inst =
     (0 < nr_table_pages feat \<and>
      length (hw_table inst) = nr_table_pages feat * 2 ^ PAGE_SHIFT \<and>
      length (local_table inst) = nr_table_pages feat * 2 ^ PAGE_SHIFT)"

section \<open>The zblock allocator (mm/zblock.c)\<close>

subsection \<open>Constants and the table of block types\<close>

text \<open>
  Addresses, handles and sizes are \<^verbatim>\<open>unsigned long\<close>, 64 bits wide on the x86-64 this
  tree builds for, where \<^verbatim>\<open>sizeof(long)\<close> is 8 and a page has \<open>2 ^ PAGE_SHIFT\<close> bytes.
\<close>

type_synonym addr = "64 word"

definition SLOT_FREE :: "8 word" where
  "SLOT_FREE = 0"

definition SLOT_OCCUPIED :: "8 word" where
  "SLOT_OCCUPIED = 1"

definition SLOT_MAPPED :: "8 word" where
  "SLOT_MAPPED = 2"

definition SLOT_UNMAPPED :: "8 word" where
  "SLOT_UNMAPPED = 3"

definition SLOT_BITS :: nat where
  "SLOT_BITS = 5"

definition MAX_SLOTS :: nat where
  "MAX_SLOTS = 2 ^ SLOT_BITS"

definition SLOT_MASK :: "64 word" where
  "SLOT_MASK = push_bit SLOT_BITS 1 - 1"

definition PAGE_SIZE :: "64 word" where
  "PAGE_SIZE = push_bit PAGE_SHIFT 1"

definition PAGE_MASK :: "64 word" where
  "PAGE_MASK = NOT (PAGE_SIZE - 1)"

definition BLOCK_CACHE_SIZE :: nat where
  "BLOCK_CACHE_SIZE = 32"

text \<open>
  The two size macros. \<open>hdr\<close> is \<^verbatim>\<open>sizeof(struct zblock_block)\<close>, which depends on the
  kernel's \<^verbatim>\<open>spinlock_t\<close> and is an argument throughout. The arithmetic is that of
  \<^verbatim>\<open>unsigned long\<close>; \<^verbatim>\<open>round_down(x, 8)\<close> clears the low three bits.
\<close>

definition BLOCK_DATA_SIZE :: "64 word \<Rightarrow> nat \<Rightarrow> 64 word" where
  "BLOCK_DATA_SIZE hdr ord = push_bit ord PAGE_SIZE - hdr"

definition SLOT_SIZE :: "64 word \<Rightarrow> nat \<Rightarrow> nat \<Rightarrow> 64 word" where
  "SLOT_SIZE hdr nslots ord = (BLOCK_DATA_SIZE hdr ord div of_nat nslots) AND NOT (8 - 1)"

text \<open>
  \<^verbatim>\<open>struct block_desc\<close>. \<^verbatim>\<open>slot_size\<close> is an \<^verbatim>\<open>unsigned int\<close>, the other two fields are
  \<^verbatim>\<open>unsigned short\<close> constants.
\<close>

record block_desc_t =
  slot_size :: "32 word"
  slots_per_block :: nat
  order :: nat

definition block_desc :: "64 word \<Rightarrow> block_desc_t list" where
  "block_desc hdr =
     map (\<lambda>(nslots, ord).
            \<lparr>slot_size = ucast (SLOT_SIZE hdr nslots ord), slots_per_block = nslots, order = ord\<rparr>)
       [(32, 0), (22, 0), (17, 0), (13, 0), (11, 0), (9, 0), (8, 0),
        (14, 1), (12, 1), (11, 1), (10, 1), (9, 1), (8, 1),
        (15, 2), (14, 2), (13, 2), (12, 2), (11, 2), (10, 2), (9, 2), (8, 2),
        (15, 3), (14, 3), (13, 3), (12, 3), (11, 3), (10, 3), (9, 3), (7, 3)]"

definition ARRAY_SIZE_block_desc :: nat where
  "ARRAY_SIZE_block_desc = 29"

subsection \<open>Blocks, lists and the pool\<close>

text \<open>
  \<^verbatim>\<open>struct zblock_block\<close> without its lock and list node: the list a block is linked
  into is kept by the list (below).
\<close>

record zblock_block =
  slot_info :: "8 word list"
  free_slots :: "32 word"
  under_reclaim :: bool

text \<open>
  A value of type \<^verbatim>\<open>struct zblock_block *\<close>: null, the address of a block, or what
  \<^verbatim>\<open>container_of\<close> makes of the head of the list of one block type, which is the address
  of no block.
\<close>

datatype block_ptr = NULL | Blk addr | Head_entry nat

text \<open>
  \<^verbatim>\<open>struct block_list\<close>: the linked list as the addresses of its blocks from the head
  (the block added last) to the tail (the oldest), the cache and the counter.
\<close>

record block_list =
  head :: "addr list"
  block_cache :: "block_ptr list"
  block_count :: "64 word"

text \<open>
  \<^verbatim>\<open>struct zblock_pool\<close>, with the memory in which the headers of its blocks live:
  \<open>mem\<close> maps the address of each block whose pages the pool holds to the header there.
  The eviction callback (\<^verbatim>\<open>ops\<close>, \<^verbatim>\<open>zpool_ops\<close>) is an argument of the reclaimer.
\<close>

record zblock_pool =
  block_lists :: "block_list list"
  alloc_flag :: int
  mem :: "addr \<rightharpoonup> zblock_block"

text \<open>
  What C leaves undefined and the functions below can run into: an access through a
  pointer that is the address of no block, an index outside an array, the use of a
  variable that was never assigned.
\<close>

datatype fault = Bad_pointer | Out_of_bounds | Uninitialised

subsection \<open>Helpers\<close>

text \<open>
  The scan of \<^verbatim>\<open>cache_insert_block\<close> over the cache entries from index \<open>i\<close> on: the
  index the block is stored at. \<open>min_index\<close> is \<open>None\<close> until it is first assigned.
\<close>

fun cache_insert_index ::
  "(addr \<rightharpoonup> zblock_block) \<Rightarrow> block_ptr list \<Rightarrow> nat \<Rightarrow> 32 word \<Rightarrow> nat option \<Rightarrow> fault + nat" where
  "cache_insert_index m [] i min_free_slots min_index =
     (case min_index of None \<Rightarrow> Inl Uninitialised | Some k \<Rightarrow> Inr k)"
| "cache_insert_index m (NULL # cs) i min_free_slots min_index = Inr i"
| "cache_insert_index m (Head_entry t # cs) i min_free_slots min_index = Inl Bad_pointer"
| "cache_insert_index m (Blk a # cs) i min_free_slots min_index =
     (case m a of
        None \<Rightarrow> Inl Bad_pointer
      | Some b \<Rightarrow>
          if free_slots b = 0 then Inr i
          else if free_slots b < min_free_slots
               then cache_insert_index m cs (i + 1) (free_slots b) (Some i)
               else cache_insert_index m cs (i + 1) min_free_slots min_index)"

definition cache_insert_block ::
  "(addr \<rightharpoonup> zblock_block) \<Rightarrow> block_ptr \<Rightarrow> block_list \<Rightarrow> fault + block_list" where
  "cache_insert_block m block list =
     (case cache_insert_index m (take BLOCK_CACHE_SIZE (block_cache list)) 0
             (of_nat MAX_SLOTS) None of
        Inl f \<Rightarrow> Inl f
      | Inr k \<Rightarrow> Inr (list\<lparr>block_cache := (block_cache list)[k := block]\<rparr>))"

fun cache_find_entry :: "(addr \<rightharpoonup> zblock_block) \<Rightarrow> block_ptr list \<Rightarrow> fault + block_ptr" where
  "cache_find_entry m [] = Inr NULL"
| "cache_find_entry m (NULL # cs) = cache_find_entry m cs"
| "cache_find_entry m (Head_entry t # cs) = Inl Bad_pointer"
| "cache_find_entry m (Blk a # cs) =
     (case m a of
        None \<Rightarrow> Inl Bad_pointer
      | Some b \<Rightarrow> if free_slots b \<noteq> 0 then Inr (Blk a) else cache_find_entry m cs)"

definition cache_find_block :: "(addr \<rightharpoonup> zblock_block) \<Rightarrow> block_list \<Rightarrow> fault + block_ptr" where
  "cache_find_block m list = cache_find_entry m (take BLOCK_CACHE_SIZE (block_cache list))"

text \<open>\<^verbatim>\<open>is_in_cache\<close>: the first index holding the pointer, \<open>None\<close> for \<^verbatim>\<open>-1\<close>.\<close>

fun is_in_cache_from :: "block_ptr \<Rightarrow> block_ptr list \<Rightarrow> nat \<Rightarrow> nat option" where
  "is_in_cache_from block [] i = None"
| "is_in_cache_from block (c # cs) i =
     (if block = c then Some i else is_in_cache_from block cs (i + 1))"

definition is_in_cache :: "block_ptr \<Rightarrow> block_list \<Rightarrow> nat option" where
  "is_in_cache block list = is_in_cache_from block (take BLOCK_CACHE_SIZE (block_cache list)) 0"

text \<open>
  \<^verbatim>\<open>list_del\<close> unlinks the block's node from the list it is in, whichever that is.
\<close>

definition list_del :: "addr \<Rightarrow> block_list list \<Rightarrow> block_list list" where
  "list_del a bls = map (\<lambda>l. l\<lparr>head := remove1 a (head l)\<rparr>) bls"

text \<open>
  \<^verbatim>\<open>alloc_block\<close>. \<open>pages\<close> is what \<^verbatim>\<open>__get_free_pages\<close> returns: \<open>None\<close> for 0,
  otherwise the address of the pages and the header-sized bytes found there, which
  \<^verbatim>\<open>alloc_block\<close> initialises up to \<^verbatim>\<open>slots_per_block\<close> slot bytes.
\<close>

definition alloc_block ::
  "64 word \<Rightarrow> (addr \<times> zblock_block) option \<Rightarrow> zblock_pool \<Rightarrow> nat
   \<Rightarrow> fault + zblock_pool \<times> block_ptr" where
  "alloc_block hdr pages pool block_type =
     (case pages of
        None \<Rightarrow> Inr (pool, NULL)
      | Some (a, raw) \<Rightarrow>
          (let d = block_desc hdr ! block_type;
               list = block_lists pool ! block_type;
               block = raw\<lparr>slot_info := replicate (slots_per_block d) SLOT_FREE @
                                        drop (slots_per_block d) (slot_info raw),
                          free_slots := of_nat (slots_per_block d),
                          under_reclaim := False\<rparr>;
               m = (mem pool)(a \<mapsto> block);
               list1 = list\<lparr>head := a # head list\<rparr>
           in case cache_insert_block m (Blk a) list1 of
                Inl f \<Rightarrow> Inl f
              | Inr list2 \<Rightarrow>
                  Inr (pool\<lparr>block_lists := (block_lists pool)
                               [block_type := list2\<lparr>block_count := block_count list2 + 1\<rparr>],
                            mem := m\<rparr>,
                       Blk a)))"

subsection \<open>Handles\<close>

text \<open>
  \<^verbatim>\<open>block_type << SLOT_BITS\<close> is computed in \<^verbatim>\<open>unsigned int\<close> and then widened.
\<close>

definition metadata_to_handle :: "addr \<Rightarrow> 32 word \<Rightarrow> 32 word \<Rightarrow> 64 word" where
  "metadata_to_handle block block_type slot =
     block + ucast (push_bit SLOT_BITS block_type) + ucast slot"

definition handle_to_metadata :: "64 word \<Rightarrow> addr \<times> 32 word \<times> 32 word" where
  "handle_to_metadata handle =
     (handle AND PAGE_MASK,
      ucast (drop_bit SLOT_BITS (handle AND (PAGE_SIZE - 1))),
      ucast (handle AND SLOT_MASK))"

subsection \<open>Pool creation\<close>

definition empty_block_list :: block_list where
  "empty_block_list = \<lparr>head = [], block_cache = replicate BLOCK_CACHE_SIZE NULL, block_count = 0\<rparr>"

text \<open>
  \<^verbatim>\<open>zblock_create_pool\<close>: \<open>None\<close> for a null return. \<open>kmalloc_ok\<close> is whether the
  allocation of the pool structure succeeds.
\<close>

definition zblock_create_pool :: "64 word \<Rightarrow> bool \<Rightarrow> zblock_pool option" where
  "zblock_create_pool hdr kmalloc_ok =
     (if \<not> kmalloc_ok then None
      else if ucast (slot_size (block_desc hdr ! (ARRAY_SIZE_block_desc - 1))) < PAGE_SIZE then None
      else Some \<lparr>block_lists = replicate ARRAY_SIZE_block_desc empty_block_list,
                 alloc_flag = 0,
                 mem = Map.empty\<rparr>)"

subsection \<open>Allocation\<close>

text \<open>The search for the block type, from index \<open>block_type\<close> on.\<close>

function select_block_type :: "64 word \<Rightarrow> 64 word \<Rightarrow> nat \<Rightarrow> nat" where
  "select_block_type hdr sz block_type =
     (if block_type < ARRAY_SIZE_block_desc
      then (if sz \<le> ucast (slot_size (block_desc hdr ! block_type)) then block_type
            else select_block_type hdr sz (block_type + 1))
      else block_type)"
  by pat_completeness auto
termination
  by (relation "measure (\<lambda>(hdr, sz, block_type). ARRAY_SIZE_block_desc - block_type)") auto

declare select_block_type.simps [simp del]

text \<open>The search for the first free slot of a block, from index \<open>slot\<close> on.\<close>

function first_free_slot :: "zblock_block \<Rightarrow> nat \<Rightarrow> nat \<Rightarrow> nat" where
  "first_free_slot block nslots slot =
     (if slot < nslots
      then (if slot_info block ! slot = SLOT_FREE then slot
            else first_free_slot block nslots (slot + 1))
      else slot)"
  by pat_completeness auto
termination
  by (relation "measure (\<lambda>(block, nslots, slot). nslots - slot)") auto

declare first_free_slot.simps [simp del]

text \<open>
  The part of \<^verbatim>\<open>zblock_alloc\<close> between the labels \<^verbatim>\<open>check\<close> and \<^verbatim>\<open>found\<close>: it returns
  the pool and the block to allocate from, or null when no pages could be had. While
  \<^verbatim>\<open>alloc_flag\<close> is taken and the cache offers nothing, the code goes round the loop; no
  other thread runs here, so that case never returns.
\<close>

partial_function (option) alloc_check ::
  "64 word \<Rightarrow> (addr \<times> zblock_block) option \<Rightarrow> zblock_pool \<Rightarrow> nat
   \<Rightarrow> (fault + zblock_pool \<times> block_ptr) option" where
  "alloc_check hdr pages pool block_type =
     (case cache_find_block (mem pool) (block_lists pool ! block_type) of
        Inl f \<Rightarrow> Some (Inl f)
      | Inr block \<Rightarrow>
          if block \<noteq> NULL then Some (Inr (pool, block))
          else if alloc_flag pool \<noteq> 0 then alloc_check hdr pages pool block_type
          else Some (alloc_block hdr pages (pool\<lparr>alloc_flag := 1\<rparr>) block_type))"

declare alloc_check.simps [code]

text \<open>
  From the label \<^verbatim>\<open>found\<close> on. The slot byte is written wherever the scan stopped; an
  index of \<^verbatim>\<open>MAX_SLOTS\<close> is outside \<^verbatim>\<open>slot_info\<close>.
\<close>

definition alloc_found :: "64 word \<Rightarrow> zblock_pool \<Rightarrow> nat \<Rightarrow> block_ptr \<Rightarrow> fault + zblock_pool \<times> 64 word" where
  "alloc_found hdr pool block_type block =
     (case block of
        Blk a \<Rightarrow>
          (case mem pool a of
             None \<Rightarrow> Inl Bad_pointer
           | Some b \<Rightarrow>
               (let b1 = b\<lparr>free_slots := free_slots b - 1\<rparr>;
                    slot = first_free_slot b1 (slots_per_block (block_desc hdr ! block_type)) 0
                in if MAX_SLOTS \<le> slot then Inl Out_of_bounds
                   else
                     Inr (pool\<lparr>mem := (mem pool)
                                  (a \<mapsto> b1\<lparr>slot_info := (slot_info b1)[slot := SLOT_OCCUPIED]\<rparr>),
                               alloc_flag := 0\<rparr>,
                          metadata_to_handle a (of_nat block_type) (of_nat slot))))
      | _ \<Rightarrow> Inl Bad_pointer)"

text \<open>
  \<^verbatim>\<open>zblock_alloc\<close>: \<open>None\<close> when the call does not return, a fault, or the pool with
  either the error number or the handle. \<^verbatim>\<open>block_lists[block_type]\<close> is outside the array
  when the search for the type found none.
\<close>

definition zblock_alloc ::
  "64 word \<Rightarrow> (addr \<times> zblock_block) option \<Rightarrow> zblock_pool \<Rightarrow> 64 word
   \<Rightarrow> (fault + zblock_pool \<times> (errno + 64 word)) option" where
  "zblock_alloc hdr pages pool sz =
     (if sz = 0 then Some (Inr (pool, Inl EINVAL))
      else if PAGE_SIZE < sz then Some (Inr (pool, Inl ENOSPC))
      else
        (let block_type = select_block_type hdr sz 0
         in if ARRAY_SIZE_block_desc \<le> block_type then Some (Inl Out_of_bounds)
            else
              (case alloc_check hdr pages pool block_type of
                 None \<Rightarrow> None
               | Some (Inl f) \<Rightarrow> Some (Inl f)
               | Some (Inr (pool1, block)) \<Rightarrow>
                   if block = NULL then Some (Inr (pool1\<lparr>alloc_flag := 0\<rparr>, Inl ENOMEM))
                   else
                     (case alloc_found hdr pool1 block_type block of
                        Inl f \<Rightarrow> Some (Inl f)
                      | Inr (pool2, handle) \<Rightarrow> Some (Inr (pool2, Inr handle))))))"

subsection \<open>Free, map and unmap\<close>

text \<open>
  \<^verbatim>\<open>zblock_free\<close>. The first access is the read of \<^verbatim>\<open>block->under_reclaim\<close>; the list is
  only touched after it.
\<close>

definition zblock_free :: "64 word \<Rightarrow> zblock_pool \<Rightarrow> 64 word \<Rightarrow> fault + zblock_pool" where
  "zblock_free hdr pool handle =
     (let (block, bt, slot) = handle_to_metadata handle;
          block_type = unat bt
      in case mem pool block of
           None \<Rightarrow> Inl Bad_pointer
         | Some b \<Rightarrow>
             if under_reclaim b then Inr pool
             else if ARRAY_SIZE_block_desc \<le> block_type then Inl Out_of_bounds
             else
               (let list = block_lists pool ! block_type;
                    i = is_in_cache (Blk block) list;
                    b1 = b\<lparr>free_slots := free_slots b + 1\<rparr>;
                    m1 = (mem pool)(block \<mapsto> b1)
                in if unat (free_slots b1) = slots_per_block (block_desc hdr ! block_type)
                   then
                     (let bls = list_del block (block_lists pool);
                          list1 = bls ! block_type;
                          list2 = list1\<lparr>block_count := block_count list1 - 1\<rparr>;
                          list3 = (case i of
                                     None \<Rightarrow> list2
                                   | Some k \<Rightarrow> list2\<lparr>block_cache := (block_cache list2)[k := NULL]\<rparr>)
                      in Inr (pool\<lparr>block_lists := bls[block_type := list3],
                                   mem := m1(block := None)\<rparr>))
                   else
                     (case (if i = None then cache_insert_block m1 (Blk block) list
                            else Inr list) of
                        Inl f \<Rightarrow> Inl f
                      | Inr list1 \<Rightarrow>
                          Inr (pool\<lparr>block_lists := (block_lists pool)[block_type := list1],
                                    mem := m1(block \<mapsto>
                                      b1\<lparr>slot_info := (slot_info b1)[unat slot := SLOT_FREE]\<rparr>)\<rparr>))))"

text \<open>
  \<^verbatim>\<open>zblock_map\<close> returns the address of the slot's payload, which lies behind the
  header; it reads \<^verbatim>\<open>block_desc[block_type]\<close> for the slot size.
\<close>

definition zblock_map :: "64 word \<Rightarrow> zblock_pool \<Rightarrow> 64 word \<Rightarrow> fault + zblock_pool \<times> 64 word" where
  "zblock_map hdr pool handle =
     (let (block, bt, slot) = handle_to_metadata handle
      in case mem pool block of
           None \<Rightarrow> Inl Bad_pointer
         | Some b \<Rightarrow>
             if ARRAY_SIZE_block_desc \<le> unat bt then Inl Out_of_bounds
             else
               Inr (pool\<lparr>mem := (mem pool)
                            (block \<mapsto> b\<lparr>slot_info := (slot_info b)[unat slot := SLOT_MAPPED]\<rparr>)\<rparr>,
                    block + hdr + ucast (slot * slot_size (block_desc hdr ! unat bt))))"

definition zblock_unmap :: "zblock_pool \<Rightarrow> 64 word \<Rightarrow> fault + zblock_pool" where
  "zblock_unmap pool handle =
     (let (block, bt, slot) = handle_to_metadata handle
      in case mem pool block of
           None \<Rightarrow> Inl Bad_pointer
         | Some b \<Rightarrow>
             Inr (pool\<lparr>mem := (mem pool)
                          (block \<mapsto> b\<lparr>slot_info := (slot_info b)[unat slot := SLOT_UNMAPPED]\<rparr>)\<rparr>))"

subsection \<open>Reclaim\<close>

text \<open>
  Modelled from the spec: the macro \<^verbatim>\<open>list_last_entry\<close> of \<^verbatim>\<open>linux/list.h\<close> is not in
  the sources. It yields the list's tail, the oldest block, and the specification's
  design notes record that the call is undefined on an empty list: the macro applies
  \<^verbatim>\<open>container_of\<close> to \<^verbatim>\<open>head->prev\<close>, which on an empty list is the head itself, so the
  result is neither null nor a block.
\<close>

definition list_last_entry :: "addr list \<Rightarrow> nat \<Rightarrow> block_ptr" where
  "list_last_entry xs block_type = (case xs of [] \<Rightarrow> Head_entry block_type | _ \<Rightarrow> Blk (last xs))"

text \<open>
  The eviction callback \<^verbatim>\<open>pool->ops->evict(pool, handle)\<close> returns an \<^verbatim>\<open>int\<close> and may
  itself call into the pool.
\<close>

type_synonym evict_fn = "zblock_pool \<Rightarrow> 64 word \<Rightarrow> int \<times> zblock_pool"

text \<open>
  The loop over the slots of the block under reclaim, given as the slots still to visit:
  the pool and the number of slots reclaimed. A callback error leaves the loop.
\<close>

fun reclaim_slots ::
  "evict_fn \<Rightarrow> addr \<Rightarrow> nat \<Rightarrow> nat list \<Rightarrow> zblock_pool \<Rightarrow> nat \<Rightarrow> fault + zblock_pool \<times> nat" where
  "reclaim_slots evict a block_type [] pool reclaimed = Inr (pool, reclaimed)"
| "reclaim_slots evict a block_type (slot # rest) pool reclaimed =
     (case mem pool a of
        None \<Rightarrow> Inl Bad_pointer
      | Some b \<Rightarrow>
          if slot_info b ! slot = SLOT_OCCUPIED \<or> slot_info b ! slot = SLOT_UNMAPPED
          then
            (case evict pool (metadata_to_handle a (of_nat block_type) (of_nat slot)) of
               (ret, pool1) \<Rightarrow>
                 if ret \<noteq> 0 then Inr (pool1, reclaimed)
                 else
                   (case mem pool1 a of
                      None \<Rightarrow> Inl Bad_pointer
                    | Some b1 \<Rightarrow>
                        reclaim_slots evict a block_type rest
                          (pool1\<lparr>mem := (mem pool1)
                             (a \<mapsto> b1\<lparr>slot_info := (slot_info b1)[slot := SLOT_FREE],
                                      free_slots := free_slots b1 + 1\<rparr>)\<rparr>)
                          (reclaimed + 1)))
          else reclaim_slots evict a block_type rest pool reclaimed)"

text \<open>
  What follows the slot loop: the block goes back into the cache when slots remain
  occupied and is deleted otherwise.
\<close>

definition reclaim_finish ::
  "64 word \<Rightarrow> addr \<Rightarrow> nat \<Rightarrow> zblock_pool \<Rightarrow> nat \<Rightarrow> fault + zblock_pool \<times> (errno + nat)" where
  "reclaim_finish hdr a block_type pool reclaimed =
     (let ret = (if reclaimed \<noteq> 0 then Inr reclaimed else Inl EAGAIN)
      in case mem pool a of
           None \<Rightarrow> Inl Bad_pointer
         | Some b \<Rightarrow>
             if unat (free_slots b) \<noteq> slots_per_block (block_desc hdr ! block_type)
             then
               (let m1 = (mem pool)(a \<mapsto> b\<lparr>under_reclaim := False\<rparr>)
                in case cache_insert_block m1 (Blk a) (block_lists pool ! block_type) of
                     Inl f \<Rightarrow> Inl f
                   | Inr list1 \<Rightarrow>
                       Inr (pool\<lparr>block_lists := (block_lists pool)[block_type := list1],
                                 mem := m1\<rparr>, ret))
             else
               (let bls = list_del a (block_lists pool);
                    list1 = bls ! block_type
                in Inr (pool\<lparr>block_lists :=
                               bls[block_type := list1\<lparr>block_count := block_count list1 - 1\<rparr>],
                             mem := (mem pool)(a := None)\<rparr>, ret)))"

text \<open>
  The loop over the block types, from the last one down: \<open>n\<close> is the number of types
  still to visit, so the type under the cursor is \<open>n - 1\<close>.
\<close>

fun reclaim_types ::
  "64 word \<Rightarrow> evict_fn \<Rightarrow> zblock_pool \<Rightarrow> nat \<Rightarrow> fault + zblock_pool \<times> (errno + nat)" where
  "reclaim_types hdr evict pool 0 = Inr (pool, Inl EINVAL)"
| "reclaim_types hdr evict pool (Suc block_type) =
     (let list = block_lists pool ! block_type;
          block = list_last_entry (head list) block_type
      in if block = NULL then reclaim_types hdr evict pool block_type
         else if is_in_cache block list \<noteq> None then reclaim_types hdr evict pool block_type
         else
           (case block of
              Blk a \<Rightarrow>
                (case mem pool a of
                   None \<Rightarrow> Inl Bad_pointer
                 | Some b \<Rightarrow>
                     (case reclaim_slots evict a block_type
                             [0..<slots_per_block (block_desc hdr ! block_type)]
                             (pool\<lparr>mem := (mem pool)(a \<mapsto> b\<lparr>under_reclaim := True\<rparr>)\<rparr>) 0 of
                        Inl f \<Rightarrow> Inl f
                      | Inr (pool1, reclaimed) \<Rightarrow>
                          reclaim_finish hdr a block_type pool1 reclaimed))
            | _ \<Rightarrow> Inl Bad_pointer))"

definition zblock_reclaim_block ::
  "64 word \<Rightarrow> evict_fn \<Rightarrow> zblock_pool \<Rightarrow> fault + zblock_pool \<times> (errno + nat)" where
  "zblock_reclaim_block hdr evict pool = reclaim_types hdr evict pool ARRAY_SIZE_block_desc"

subsection \<open>The counting invariant\<close>

text \<open>
  ZB-I1 for a block of a type with \<open>nslots\<close> slots: \<^verbatim>\<open>free_slots\<close> is the number of
  \<^verbatim>\<open>SLOT_FREE\<close> entries among the first \<open>nslots\<close> of \<^verbatim>\<open>slot_info\<close>.
\<close>

definition ZB_I1 :: "nat \<Rightarrow> zblock_block \<Rightarrow> bool" where
  "ZB_I1 nslots b =
     (unat (free_slots b) = length (filter (\<lambda>x. x = SLOT_FREE) (take nslots (slot_info b))))"

text \<open>
  The state of a pool between two calls. Every list holds each of its blocks once and no
  block of another list; every listed block is in memory with its \<^verbatim>\<open>MAX_SLOTS\<close> slot
  bytes and satisfies ZB-I1 for the type of its list; a cache holds null pointers and
  blocks of its own list, none of them twice; \<^verbatim>\<open>alloc_flag\<close> is clear.
\<close>

definition lists_ok :: "zblock_pool \<Rightarrow> bool" where
  "lists_ok pool =
     (\<forall>t < ARRAY_SIZE_block_desc.
        distinct (head (block_lists pool ! t)) \<and>
        (\<forall>t' < ARRAY_SIZE_block_desc. t' \<noteq> t \<longrightarrow>
           set (head (block_lists pool ! t)) \<inter> set (head (block_lists pool ! t')) = {}))"

definition cache_ok :: "block_list \<Rightarrow> bool" where
  "cache_ok l =
     (length (block_cache l) = BLOCK_CACHE_SIZE \<and>
      (\<forall>c \<in> set (block_cache l). c = NULL \<or> (\<exists>a. c = Blk a \<and> a \<in> set (head l))) \<and>
      (\<forall>i < BLOCK_CACHE_SIZE. \<forall>j < BLOCK_CACHE_SIZE.
         i \<noteq> j \<and> block_cache l ! i = block_cache l ! j \<longrightarrow> block_cache l ! i = NULL))"

definition blocks_ok :: "64 word \<Rightarrow> zblock_pool \<Rightarrow> bool" where
  "blocks_ok hdr pool =
     (\<forall>t < ARRAY_SIZE_block_desc. \<forall>a \<in> set (head (block_lists pool ! t)).
        \<exists>b. mem pool a = Some b \<and> length (slot_info b) = MAX_SLOTS \<and>
            ZB_I1 (slots_per_block (block_desc hdr ! t)) b)"

definition pool_inv :: "64 word \<Rightarrow> zblock_pool \<Rightarrow> bool" where
  "pool_inv hdr pool =
     (length (block_lists pool) = ARRAY_SIZE_block_desc \<and> alloc_flag pool = 0 \<and>
      lists_ok pool \<and>
      (\<forall>t < ARRAY_SIZE_block_desc. cache_ok (block_lists pool ! t)) \<and>
      blocks_ok hdr pool)"

text \<open>
  What the callers owe. The page allocator hands out pages that the pool does not
  already hold. A handle passed to free, map or unmap is one that \<^verbatim>\<open>zblock_alloc\<close> returned
  and that has not been freed since: its block is in the list of its type and its slot is
  a slot of that type that is not free. The eviction callback leaves the lists alone and
  changes no block other than by moving slots between the states that are not free, as
  \<^verbatim>\<open>zblock_map\<close>, \<^verbatim>\<open>zblock_unmap\<close> and \<^verbatim>\<open>zblock_free\<close> on a block under reclaim do.
\<close>

definition pages_ok :: "zblock_pool \<Rightarrow> (addr \<times> zblock_block) option \<Rightarrow> bool" where
  "pages_ok pool pages =
     (case pages of
        None \<Rightarrow> True
      | Some (a, raw) \<Rightarrow> mem pool a = None \<and> length (slot_info raw) = MAX_SLOTS)"

text \<open>
  \<^verbatim>\<open>__get_free_pages\<close> returns the address of a page, so the blocks of the pool and the
  pages offered to it lie at multiples of \<^verbatim>\<open>PAGE_SIZE\<close>; \<^verbatim>\<open>handle_to_metadata\<close> relies
  on it.
\<close>

definition pages_aligned :: "zblock_pool \<Rightarrow> (addr \<times> zblock_block) option \<Rightarrow> bool" where
  "pages_aligned pool pages =
     ((\<forall>l \<in> set (block_lists pool). \<forall>a \<in> set (head l). a AND (PAGE_SIZE - 1) = 0) \<and>
      (case pages of None \<Rightarrow> True | Some (a, raw) \<Rightarrow> a AND (PAGE_SIZE - 1) = 0))"

definition valid_handle :: "64 word \<Rightarrow> zblock_pool \<Rightarrow> 64 word \<Rightarrow> bool" where
  "valid_handle hdr pool handle =
     (case handle_to_metadata handle of
        (a, bt, slot) \<Rightarrow>
          unat bt < ARRAY_SIZE_block_desc \<and>
          a \<in> set (head (block_lists pool ! unat bt)) \<and>
          unat slot < slots_per_block (block_desc hdr ! unat bt) \<and>
          (\<exists>b. mem pool a = Some b \<and> slot_info b ! unat slot \<noteq> SLOT_FREE))"

definition same_free_slots :: "zblock_block \<Rightarrow> zblock_block \<Rightarrow> bool" where
  "same_free_slots b b1 =
     (free_slots b1 = free_slots b \<and> length (slot_info b1) = length (slot_info b) \<and>
      (\<forall>i < length (slot_info b). (slot_info b1 ! i = SLOT_FREE) = (slot_info b ! i = SLOT_FREE)))"

definition evict_ok :: "evict_fn \<Rightarrow> bool" where
  "evict_ok evict =
     (\<forall>pool handle.
        block_lists (snd (evict pool handle)) = block_lists pool \<and>
        alloc_flag (snd (evict pool handle)) = alloc_flag pool \<and>
        (\<forall>a. case mem pool a of
               None \<Rightarrow> mem (snd (evict pool handle)) a = None
             | Some b \<Rightarrow>
                 (\<exists>b1. mem (snd (evict pool handle)) a = Some b1 \<and> same_free_slots b b1)))"

subsection \<open>A pool to run the functions on\<close>

text \<open>
  A pool as it is after two allocations of a page each: one block of the last type
  (seven slots) at address \<open>0x10000\<close>, its first two slots occupied, linked into its
  list and cached.
\<close>

definition example_block :: zblock_block where
  "example_block =
     \<lparr>slot_info = [SLOT_OCCUPIED, SLOT_OCCUPIED] @ replicate 30 SLOT_FREE,
      free_slots = 5,
      under_reclaim = False\<rparr>"

definition example_pool :: zblock_pool where
  "example_pool =
     \<lparr>block_lists = (replicate ARRAY_SIZE_block_desc empty_block_list)
        [28 := \<lparr>head = [0x10000],
                 block_cache = Blk 0x10000 # replicate 31 NULL,
                 block_count = 1\<rparr>],
      alloc_flag = 0,
      mem = [0x10000 \<mapsto> example_block]\<rparr>"

text \<open>
  The same pool with the block in no cache slot: the tail of a list is reclaimed only
  when it is not cached.
\<close>

definition uncached_pool :: zblock_pool where
  "uncached_pool =
     \<lparr>block_lists = (replicate ARRAY_SIZE_block_desc empty_block_list)
        [28 := \<lparr>head = [0x10000], block_cache = replicate 32 NULL, block_count = 1\<rparr>],
      alloc_flag = 0,
      mem = [0x10000 \<mapsto> example_block]\<rparr>"

section \<open>Properties of the HFI driver\<close>

subsection \<open>The debouncer\<close>

lemma classify_snoc: "classify p (xs @ [x]) = debounce_and_update_class (classify p xs) x"
  by (simp add: classify_def)

lemma take_Cons_subset: "set (take n (x # ys)) \<subseteq> insert x (set (take n ys))"
proof (cases n)
  case 0
  then show ?thesis by simp
next
  case (Suc k)
  have "set (take k ys) \<subseteq> set (take (Suc k) ys)"
    by (rule set_take_subset_set_take) simp
  with Suc show ?thesis by auto
qed

lemma run_inv_step:
  assumes "run_inv p xs"
  shows "run_inv (debounce_and_update_class p x) (xs @ [x])"
  using assms take_Cons_subset [of "ipcc_cntr p" x "rev xs"]
  by (auto simp: run_inv_def debounce_and_update_class_def CLASS_DEBOUNCER_SKIPS_def
        Let_def list_all_iff)

lemma run_inv_classify:
  assumes "ipcc_cntr p = 0"
  shows "run_inv (classify p xs) xs"
proof (induction xs rule: rev_induct)
  case Nil
  show ?case using assms by (simp add: run_inv_def classify_def)
next
  case (snoc x xs)
  then show ?case by (simp add: classify_snoc run_inv_step)
qed

lemma debounce_commit_only:
  assumes "ipcc (debounce_and_update_class p x) \<noteq> ipcc p"
  shows "ipcc_tmp p = unat x \<and> 3 \<le> ipcc_cntr p \<and> ipcc (debounce_and_update_class p x) = unat x"
  using assms
  by (auto simp: debounce_and_update_class_def CLASS_DEBOUNCER_SKIPS_def Let_def
        split: if_splits)

lemma classify_change:
  assumes "ipcc_cntr p = 0"
    and "ipcc (classify p (xs @ [x])) \<noteq> ipcc (classify p xs)"
  shows "3 \<le> length xs \<and> (\<forall>y \<in> set (take 3 (rev xs)). y = x) \<and>
         ipcc (classify p (xs @ [x])) = unat x"
proof -
  let ?q = "classify p xs"
  from assms(2) have c: "ipcc_tmp ?q = unat x" "3 \<le> ipcc_cntr ?q"
    "ipcc (classify p (xs @ [x])) = unat x"
    using debounce_commit_only [of ?q x] by (simp_all add: classify_snoc)
  have inv: "run_inv ?q xs"
    by (rule run_inv_classify [OF assms(1)])
  then have len: "3 \<le> length xs"
    using c(2) by (simp add: run_inv_def)
  have "\<forall>y \<in> set (take 3 (rev xs)). y = x"
  proof
    fix y
    assume "y \<in> set (take 3 (rev xs))"
    then have "y \<in> set (take (ipcc_cntr ?q) (rev xs))"
      using c(2) set_take_subset_set_take [of 3 "ipcc_cntr ?q" "rev xs"] by blast
    then have "unat y = unat x"
      using inv c(1) by (simp add: run_inv_def list_all_iff)
    then show "y = x"
      by (simp add: word_unat_eq_iff)
  qed
  with len c(3) show ?thesis by simp
qed

lemma classify_examples:
  assumes "ipcc p = 0" and "ipcc_cntr p = 0"
  shows "ipcc (classify p [3, 3, 3, 3]) = 3" and "ipcc (classify p [3, 3, 2, 3]) = 0"
  using assms
  by (simp_all add: classify_def debounce_and_update_class_def CLASS_DEBOUNCER_SKIPS_def Let_def)

text \<open>
  C1, as the code has it. One invocation with an observation that differs from
  \<^verbatim>\<open>ipcc_tmp\<close> sets the counter to 1 and \<^verbatim>\<open>ipcc_tmp\<close> to the observation and leaves
  \<^verbatim>\<open>ipcc\<close> alone. On a repeated observation the counter is incremented, and nothing
  else changes, as long as the incremented value (a \<^verbatim>\<open>u16\<close>) is below
  \<^verbatim>\<open>CLASS_DEBOUNCER_SKIPS\<close>; once it is not, \<^verbatim>\<open>ipcc\<close> is committed and the counter is
  left where it is. So along a run that starts with the counter at 0, \<^verbatim>\<open>ipcc\<close> changes
  only at an invocation whose observation equals the three before it, and then to that
  observation: \<open>3, 3, 3, 3\<close> from \<^verbatim>\<open>ipcc = 0\<close> ends with 3, and \<open>3, 3, 2, 3\<close> with 0.
\<close>

theorem debounce_and_update_class_commit:
  "(ipcc_tmp p \<noteq> unat obs \<longrightarrow>
      debounce_and_update_class p obs = p\<lparr>ipcc_cntr := 1, ipcc_tmp := unat obs\<rparr>) \<and>
   (ipcc_tmp p = unat obs \<and> (ipcc_cntr p + 1) mod 2 ^ 16 < CLASS_DEBOUNCER_SKIPS \<longrightarrow>
      debounce_and_update_class p obs =
        p\<lparr>ipcc_cntr := ipcc_cntr p + 1, ipcc_tmp := unat obs\<rparr>) \<and>
   (ipcc_tmp p = unat obs \<and> CLASS_DEBOUNCER_SKIPS \<le> (ipcc_cntr p + 1) mod 2 ^ 16 \<longrightarrow>
      debounce_and_update_class p obs = p\<lparr>ipcc := unat obs, ipcc_tmp := unat obs\<rparr>) \<and>
   (ipcc_cntr p = 0 \<and> ipcc (classify p (xs @ [x])) \<noteq> ipcc (classify p xs) \<longrightarrow>
      3 \<le> length xs \<and> (\<forall>y \<in> set (take 3 (rev xs)). y = x) \<and>
      ipcc (classify p (xs @ [x])) = unat x) \<and>
   (ipcc p = 0 \<and> ipcc_cntr p = 0 \<longrightarrow>
      ipcc (classify p [3, 3, 3, 3]) = 3 \<and> ipcc (classify p [3, 3, 2, 3]) = 0)"
proof (intro conjI impI)
  assume "ipcc_tmp p \<noteq> unat obs"
  then show "debounce_and_update_class p obs = p\<lparr>ipcc_cntr := 1, ipcc_tmp := unat obs\<rparr>"
    by (simp add: debounce_and_update_class_def)
next
  assume "ipcc_tmp p = unat obs \<and> (ipcc_cntr p + 1) mod 2 ^ 16 < CLASS_DEBOUNCER_SKIPS"
  then show "debounce_and_update_class p obs =
      p\<lparr>ipcc_cntr := ipcc_cntr p + 1, ipcc_tmp := unat obs\<rparr>"
    by (simp add: debounce_and_update_class_def Let_def)
next
  assume "ipcc_tmp p = unat obs \<and> CLASS_DEBOUNCER_SKIPS \<le> (ipcc_cntr p + 1) mod 2 ^ 16"
  then show "debounce_and_update_class p obs = p\<lparr>ipcc := unat obs, ipcc_tmp := unat obs\<rparr>"
    by (simp add: debounce_and_update_class_def Let_def)
next
  assume a: "ipcc_cntr p = 0 \<and> ipcc (classify p (xs @ [x])) \<noteq> ipcc (classify p xs)"
  then have r: "3 \<le> length xs \<and> (\<forall>y \<in> set (take 3 (rev xs)). y = x) \<and>
      ipcc (classify p (xs @ [x])) = unat x"
    using classify_change [of p xs x] by blast
  from r show "3 \<le> length xs" by blast
  from r show "\<forall>y \<in> set (take 3 (rev xs)). y = x" by blast
  from r show "ipcc (classify p (xs @ [x])) = unat x" by blast
next
  assume a: "ipcc p = 0 \<and> ipcc_cntr p = 0"
  then show "ipcc (classify p [3, 3, 3, 3]) = 3" by (simp add: classify_examples(1))
  from a show "ipcc (classify p [3, 3, 2, 3]) = 0" by (simp add: classify_examples(2))
qed

theorem debounce_and_update_class_commit_witness:
  "debounce_and_update_class \<lparr>ipcc = 0, ipcc_tmp = 0, ipcc_cntr = 0\<rparr> 3 =
     \<lparr>ipcc = 0, ipcc_tmp = 3, ipcc_cntr = 1\<rparr> \<and>
   debounce_and_update_class \<lparr>ipcc = 0, ipcc_tmp = 3, ipcc_cntr = 2\<rparr> 3 =
     \<lparr>ipcc = 0, ipcc_tmp = 3, ipcc_cntr = 3\<rparr> \<and>
   debounce_and_update_class \<lparr>ipcc = 0, ipcc_tmp = 3, ipcc_cntr = 3\<rparr> 3 =
     \<lparr>ipcc = 3, ipcc_tmp = 3, ipcc_cntr = 3\<rparr> \<and>
   ipcc (classify \<lparr>ipcc = 0, ipcc_tmp = 0, ipcc_cntr = 0\<rparr> [3, 3, 3]) = 0 \<and>
   ipcc (classify \<lparr>ipcc = 0, ipcc_tmp = 0, ipcc_cntr = 0\<rparr> [3, 3, 3, 3]) = 3 \<and>
   ipcc (classify \<lparr>ipcc = 0, ipcc_tmp = 0, ipcc_cntr = 0\<rparr> [3, 3, 2, 3]) = 0"
  using debounce_and_update_class_commit
          [of "\<lparr>ipcc = 0, ipcc_tmp = 0, ipcc_cntr = 0\<rparr>" 3 "[3, 3, 3]" 3]
        debounce_and_update_class_commit
          [of "\<lparr>ipcc = 0, ipcc_tmp = 3, ipcc_cntr = 2\<rparr>" 3 "[]" 0]
        debounce_and_update_class_commit
          [of "\<lparr>ipcc = 0, ipcc_tmp = 3, ipcc_cntr = 3\<rparr>" 3 "[]" 0]
  by (simp add: CLASS_DEBOUNCER_SKIPS_def classify_def debounce_and_update_class_def Let_def)

text \<open>
  The step as the specification words it increments the counter on every repeated
  observation; the code stops incrementing at the commit.
\<close>

theorem debounce_spec_counterexample:
  "ipcc_cntr (debounce_spec \<lparr>ipcc = 0, ipcc_tmp = 3, ipcc_cntr = 3\<rparr> 3) = 4 \<and>
   ipcc_cntr (debounce_and_update_class \<lparr>ipcc = 0, ipcc_tmp = 3, ipcc_cntr = 3\<rparr> 3) = 3"
  by (simp add: debounce_and_update_class_def debounce_spec_def CLASS_DEBOUNCER_SKIPS_def Let_def)

subsection \<open>The score query\<close>

lemma unat_pred_class:
  fixes k :: "16 word"
  assumes "1 \<le> unat k"
  shows "k \<noteq> 0" and "unat (k - 1) = unat k - 1"
proof -
  from assms show nz: "k \<noteq> 0" by (auto simp: unat_eq_0)
  then show "unat (k - 1) = unat k - 1" by (simp add: unat_minus_one)
qed

lemma get_score_valid:
  assumes "0 \<le> c" and "c < int nr_cpu_ids" and "1 \<le> unat k" and "unat k \<le> nr_classes feat"
    and "scores (nat c) = Some sc"
  shows "intel_hfi_get_ipcc_score nr_cpu_ids feat scores k c = scast (sc ! (unat k - 1))"
proof -
  note u = unat_pred_class [OF assms(3)]
  have r: "\<not> nr_classes feat \<le> unat (k - 1)" using assms(3,4) u(2) by arith
  show ?thesis using assms(1,2,5) u r
    by (simp add: intel_hfi_get_ipcc_score_def IPC_CLASS_UNCLASSIFIED_def Let_def)
qed

lemma get_score_unclassified:
  "intel_hfi_get_ipcc_score nr_cpu_ids feat scores IPC_CLASS_UNCLASSIFIED c =
   intel_hfi_get_ipcc_score nr_cpu_ids feat scores HFI_UNCLASSIFIED_DEFAULT c"
  by (simp add: intel_hfi_get_ipcc_score_def IPC_CLASS_UNCLASSIFIED_def
        HFI_UNCLASSIFIED_DEFAULT_def Let_def)

lemma get_score_bad_cpu:
  assumes "c < 0 \<or> int nr_cpu_ids \<le> c"
  shows "intel_hfi_get_ipcc_score nr_cpu_ids feat scores k c = word_of_int (- errno_val EINVAL)"
  using assms by (auto simp add: intel_hfi_get_ipcc_score_def)

lemma get_score_bad_class:
  assumes "0 \<le> c" and "c < int nr_cpu_ids" and "nr_classes feat < unat k"
  shows "intel_hfi_get_ipcc_score nr_cpu_ids feat scores k c = word_of_int (- errno_val EINVAL)"
proof -
  from assms(3) have "1 \<le> unat k" by arith
  note u = unat_pred_class [OF this]
  have r: "nr_classes feat \<le> unat (k - 1)" using assms(3) u(2) by arith
  show ?thesis using assms(1,2) u(1) r
    by (simp add: intel_hfi_get_ipcc_score_def IPC_CLASS_UNCLASSIFIED_def Let_def)
qed

lemma get_score_nodev:
  assumes "0 \<le> c" and "c < int nr_cpu_ids" and "1 \<le> unat k" and "unat k \<le> nr_classes feat"
    and "scores (nat c) = None"
  shows "intel_hfi_get_ipcc_score nr_cpu_ids feat scores k c = word_of_int (- errno_val ENODEV)"
proof -
  note u = unat_pred_class [OF assms(3)]
  have r: "\<not> nr_classes feat \<le> unat (k - 1)" using assms(3,4) u(2) by arith
  show ?thesis using assms(1,2,5) u r
    by (simp add: intel_hfi_get_ipcc_score_def IPC_CLASS_UNCLASSIFIED_def Let_def)
qed

text \<open>
  C8. For a valid CPU and a class between 1 and \<^verbatim>\<open>nr_classes\<close> whose scores are there,
  the query returns \<^verbatim>\<open>scores[cpu][ipcc - 1]\<close> (as \<^verbatim>\<open>unsigned long\<close>). The unclassified
  class 0 is answered as class \<^verbatim>\<open>HFI_UNCLASSIFIED_DEFAULT\<close> = 1, for every CPU. A CPU
  out of range and a class above \<^verbatim>\<open>nr_classes\<close> return \<^verbatim>\<open>-EINVAL\<close>; a null scores
  pointer returns \<^verbatim>\<open>-ENODEV\<close>.
\<close>

theorem intel_hfi_get_ipcc_score_spec:
  "(0 \<le> c \<and> c < int nr_cpu_ids \<and> 1 \<le> unat k \<and> unat k \<le> nr_classes feat \<and>
      scores (nat c) = Some sc \<longrightarrow>
      intel_hfi_get_ipcc_score nr_cpu_ids feat scores k c = scast (sc ! (unat k - 1))) \<and>
   intel_hfi_get_ipcc_score nr_cpu_ids feat scores 0 c =
     intel_hfi_get_ipcc_score nr_cpu_ids feat scores HFI_UNCLASSIFIED_DEFAULT c \<and>
   HFI_UNCLASSIFIED_DEFAULT = 1 \<and>
   (c < 0 \<or> int nr_cpu_ids \<le> c \<longrightarrow>
      intel_hfi_get_ipcc_score nr_cpu_ids feat scores k c = word_of_int (- errno_val EINVAL)) \<and>
   (0 \<le> c \<and> c < int nr_cpu_ids \<and> nr_classes feat < unat k \<longrightarrow>
      intel_hfi_get_ipcc_score nr_cpu_ids feat scores k c = word_of_int (- errno_val EINVAL)) \<and>
   (0 \<le> c \<and> c < int nr_cpu_ids \<and> 1 \<le> unat k \<and> unat k \<le> nr_classes feat \<and>
      scores (nat c) = None \<longrightarrow>
      intel_hfi_get_ipcc_score nr_cpu_ids feat scores k c = word_of_int (- errno_val ENODEV))"
  using get_score_valid [of c nr_cpu_ids k feat scores sc]
    get_score_unclassified [of nr_cpu_ids feat scores c]
    get_score_bad_cpu [of c nr_cpu_ids feat scores k]
    get_score_bad_class [of c nr_cpu_ids feat k scores]
    get_score_nodev [of c nr_cpu_ids k feat scores]
  by (simp add: IPC_CLASS_UNCLASSIFIED_def HFI_UNCLASSIFIED_DEFAULT_def)

theorem intel_hfi_get_ipcc_score_spec_witness:
  "intel_hfi_get_ipcc_score 8
      \<lparr>nr_classes = 4, nr_table_pages = 1, cpu_stride = 8, class_stride = 2, hdr_size = 8\<rparr>
      (\<lambda>c. Some [10, 20, 30, 40]) 2 3 = 20 \<and>
   intel_hfi_get_ipcc_score 8
      \<lparr>nr_classes = 4, nr_table_pages = 1, cpu_stride = 8, class_stride = 2, hdr_size = 8\<rparr>
      (\<lambda>c. Some [10, 20, 30, 40]) 0 3 = 10 \<and>
   intel_hfi_get_ipcc_score 8
      \<lparr>nr_classes = 4, nr_table_pages = 1, cpu_stride = 8, class_stride = 2, hdr_size = 8\<rparr>
      (\<lambda>c. Some [10, 20, 30, 40]) 2 8 = - 22 \<and>
   intel_hfi_get_ipcc_score 8
      \<lparr>nr_classes = 4, nr_table_pages = 1, cpu_stride = 8, class_stride = 2, hdr_size = 8\<rparr>
      (\<lambda>c. Some [10, 20, 30, 40]) 5 3 = - 22 \<and>
   intel_hfi_get_ipcc_score 8
      \<lparr>nr_classes = 4, nr_table_pages = 1, cpu_stride = 8, class_stride = 2, hdr_size = 8\<rparr>
      (\<lambda>c. None) 2 3 = - 19"
  using intel_hfi_get_ipcc_score_spec
      [of 3 8 2 "\<lparr>nr_classes = 4, nr_table_pages = 1, cpu_stride = 8, class_stride = 2, hdr_size = 8\<rparr>"
          "\<lambda>c. Some [10, 20, 30, 40]" "[10, 20, 30, 40]"]
    intel_hfi_get_ipcc_score_spec
      [of 8 8 2 "\<lparr>nr_classes = 4, nr_table_pages = 1, cpu_stride = 8, class_stride = 2, hdr_size = 8\<rparr>"
          "\<lambda>c. Some [10, 20, 30, 40]" "[]"]
    intel_hfi_get_ipcc_score_spec
      [of 3 8 5 "\<lparr>nr_classes = 4, nr_table_pages = 1, cpu_stride = 8, class_stride = 2, hdr_size = 8\<rparr>"
          "\<lambda>c. Some [10, 20, 30, 40]" "[]"]
    intel_hfi_get_ipcc_score_spec
      [of 3 8 2 "\<lparr>nr_classes = 4, nr_table_pages = 1, cpu_stride = 8, class_stride = 2, hdr_size = 8\<rparr>"
          "\<lambda>c. None" "[]"]
  by (simp add: intel_hfi_get_ipcc_score_def IPC_CLASS_UNCLASSIFIED_def
        HFI_UNCLASSIFIED_DEFAULT_def Let_def)

subsection \<open>The update worker\<close>

lemma complete_chunks_counts:
  "i \<le> n \<Longrightarrow> complete_chunks caps n i evs = (i', evs') \<Longrightarrow>
     i' = i + 16 * ((n - i) div 16) \<and>
     map ev_count evs' = map ev_count evs @ replicate ((n - i) div 16) 16"
proof (induction caps n i evs arbitrary: i' evs' rule: complete_chunks.induct)
  case (1 caps n i evs)
  show ?case
  proof (cases "i + HFI_MAX_THERM_NOTIFY_COUNT \<le> n")
    case True
    then have t: "i + 16 \<le> n" by (simp add: HFI_MAX_THERM_NOTIFY_COUNT_def)
    then have d: "(n - i) div 16 = Suc ((n - (i + 16)) div 16)"
    proof -
      have "n - i = (n - (i + 16)) + 16" using t by arith
      then show ?thesis by (metis div_add_self2 zero_neq_numeral Suc_eq_plus1)
    qed
    from True "1.prems"(2) have
      "complete_chunks caps n (i + HFI_MAX_THERM_NOTIFY_COUNT)
            (evs @ [\<lparr>ev_count = HFI_MAX_THERM_NOTIFY_COUNT, ev_caps = take HFI_MAX_THERM_NOTIFY_COUNT (drop i caps)\<rparr>]) = (i', evs')"
      by (subst (asm) complete_chunks.simps) simp
    from "1.IH"[OF True _ this] t d show ?thesis
      by (simp add: HFI_MAX_THERM_NOTIFY_COUNT_def replicate_app_Cons_same)
  next
    case False
    then have "(n - i) div 16 = 0" by (simp add: HFI_MAX_THERM_NOTIFY_COUNT_def)
    with False "1.prems" show ?thesis
      by (subst (asm) complete_chunks.simps) auto
  qed
qed

lemma complete_chunks_caps:
  "i \<le> n \<Longrightarrow> complete_chunks caps n i evs = (i', evs') \<Longrightarrow> length caps = n \<Longrightarrow>
     concat (map ev_caps evs') = concat (map ev_caps evs) @ take (i' - i) (drop i caps)"
proof (induction caps n i evs arbitrary: i' evs' rule: complete_chunks.induct)
  case (1 caps n i evs)
  show ?case
  proof (cases "i + HFI_MAX_THERM_NOTIFY_COUNT \<le> n")
    case True
    then have t: "i + 16 \<le> n" by (simp add: HFI_MAX_THERM_NOTIFY_COUNT_def)
    from True "1.prems"(2) have c:
      "complete_chunks caps n (i + HFI_MAX_THERM_NOTIFY_COUNT)
            (evs @ [\<lparr>ev_count = HFI_MAX_THERM_NOTIFY_COUNT, ev_caps = take HFI_MAX_THERM_NOTIFY_COUNT (drop i caps)\<rparr>]) = (i', evs')"
      by (subst (asm) complete_chunks.simps) simp
    have ge: "i + 16 \<le> i'"
      using complete_chunks_counts[OF _ c] t by (simp add: HFI_MAX_THERM_NOTIFY_COUNT_def)
    have "take 16 (drop i caps) @ take (i' - (i + 16)) (drop (i + 16) caps) = take (i' - i) (drop i caps)"
    proof -
      have "take (i' - i) (drop i caps) = take (16 + (i' - (i + 16))) (drop i caps)"
        using ge by simp
      also have "\<dots> = take 16 (drop i caps) @ take (i' - (i + 16)) (drop 16 (drop i caps))"
        by (rule take_add)
      finally show ?thesis by (simp add: add.commute)
    qed
    with "1.IH"[OF True _ c "1.prems"(3)] t show ?thesis
      by (simp add: HFI_MAX_THERM_NOTIFY_COUNT_def)
  next
    case False
    with "1.prems" show ?thesis
      by (subst (asm) complete_chunks.simps) auto
  qed
qed

lemma length_for_each_cpu: "length (for_each_cpu m) = cpumask_weight m"
proof (induction m rule: rev_induct)
  case Nil
  show ?case by (simp add: for_each_cpu_def cpumask_weight_def)
next
  case (snoc x xs)
  have "filter (\<lambda>c. (xs @ [x]) ! c) [0..<length xs] = filter (\<lambda>c. xs ! c) [0..<length xs]"
    by (rule filter_cong) (auto simp: nth_append)
  with snoc show ?case
    by (simp add: for_each_cpu_def cpumask_weight_def)
qed

lemma update_capabilities_counts:
  "map ev_count (update_capabilities True row inst) =
     replicate (cpumask_weight (cpus inst) div 16) 16 @
     (if cpumask_weight (cpus inst) mod 16 = 0 then [] else [cpumask_weight (cpus inst) mod 16])"
proof -
  let ?n = "cpumask_weight (cpus inst)"
  let ?caps = "get_hfi_caps row inst"
  show ?thesis
  proof (cases "?n < 16")
    case True
    then show ?thesis
      by (simp add: update_capabilities_def Let_def HFI_MAX_THERM_NOTIFY_COUNT_def)
  next
    case False
    obtain i evs where c: "complete_chunks ?caps ?n 0 [] = (i, evs)"
      by (cases "complete_chunks ?caps ?n 0 []")
    from complete_chunks_counts[OF _ c] have
      i: "i = 16 * (?n div 16)" and e: "map ev_count evs = replicate (?n div 16) 16"
      by simp_all
    have r: "?n - i = ?n mod 16" using i by (simp add: minus_mult_div_eq_mod)
    from False c e r show ?thesis
      by (simp add: update_capabilities_def Let_def HFI_MAX_THERM_NOTIFY_COUNT_def)
  qed
qed

lemma update_capabilities_caps:
  "concat (map ev_caps (update_capabilities True row inst)) = get_hfi_caps row inst"
proof -
  let ?n = "cpumask_weight (cpus inst)"
  let ?caps = "get_hfi_caps row inst"
  have len: "length ?caps = ?n" by (simp add: get_hfi_caps_def length_for_each_cpu)
  show ?thesis
  proof (cases "?n < 16")
    case True
    then show ?thesis using len
      by (auto simp add: update_capabilities_def Let_def HFI_MAX_THERM_NOTIFY_COUNT_def)
  next
    case False
    obtain i evs where c: "complete_chunks ?caps ?n 0 [] = (i, evs)"
      by (cases "complete_chunks ?caps ?n 0 []")
    from complete_chunks_counts[OF _ c] have i: "i = 16 * (?n div 16)" by simp
    then have le: "i \<le> ?n" by simp
    from complete_chunks_caps[OF _ c len] have e: "concat (map ev_caps evs) = take i ?caps" by simp
    have "take i ?caps @ take (?n - i) (drop i ?caps) = ?caps"
      using len le by simp
    with False c e len le show ?thesis
      by (auto simp add: update_capabilities_def Let_def HFI_MAX_THERM_NOTIFY_COUNT_def)
  qed
qed

lemma update_capabilities_none:
  "\<not> kcalloc_ok \<or> cpumask_weight (cpus inst) = 0 \<Longrightarrow> update_capabilities kcalloc_ok row inst = []"
  by (auto simp: update_capabilities_def Let_def)

text \<open>
  C7, as the code has it. When the array \<^verbatim>\<open>cpu_caps\<close> can be allocated, one run for an
  instance with \<open>n\<close> CPUs makes \<open>n div 16\<close> calls of count 16 followed, if
  \<open>n mod 16\<close> is not zero, by one call of count \<open>n mod 16\<close>, in this order; the
  calls hand over the records of \<^verbatim>\<open>cpu_caps\<close> in order, each once; 40 CPUs give the
  counts 16, 16, 8. When the allocation fails or the instance has no CPU the run makes no
  call.
\<close>

theorem update_capabilities_batches:
  "(kcalloc_ok \<longrightarrow>
      map ev_count (update_capabilities kcalloc_ok row inst) =
        replicate (cpumask_weight (cpus inst) div 16) 16 @
        (if cpumask_weight (cpus inst) mod 16 = 0 then []
         else [cpumask_weight (cpus inst) mod 16]) \<and>
      concat (map ev_caps (update_capabilities kcalloc_ok row inst)) = get_hfi_caps row inst) \<and>
   (kcalloc_ok \<and> cpumask_weight (cpus inst) = 40 \<longrightarrow>
      map ev_count (update_capabilities kcalloc_ok row inst) = [16, 16, 8]) \<and>
   (\<not> kcalloc_ok \<or> cpumask_weight (cpus inst) = 0 \<longrightarrow>
      update_capabilities kcalloc_ok row inst = [])"
proof (intro conjI impI)
  assume k: kcalloc_ok
  then show "map ev_count (update_capabilities kcalloc_ok row inst) =
        replicate (cpumask_weight (cpus inst) div 16) 16 @
        (if cpumask_weight (cpus inst) mod 16 = 0 then []
         else [cpumask_weight (cpus inst) mod 16])"
    using update_capabilities_counts [of row inst] by simp
  from k show "concat (map ev_caps (update_capabilities kcalloc_ok row inst)) =
      get_hfi_caps row inst"
    using update_capabilities_caps [of row inst] by simp
next
  assume "kcalloc_ok \<and> cpumask_weight (cpus inst) = 40"
  then show "map ev_count (update_capabilities kcalloc_ok row inst) = [16, 16, 8]"
    using update_capabilities_counts [of row inst] by (simp add: numeral_2_eq_2)
next
  assume "\<not> kcalloc_ok \<or> cpumask_weight (cpus inst) = 0"
  then show "update_capabilities kcalloc_ok row inst = []"
    by (rule update_capabilities_none)
qed

theorem update_capabilities_batches_witness:
  "map ev_count (update_capabilities True (\<lambda>c. \<lparr>perf_cap = 0, ee_cap = 0\<rparr>)
      \<lparr>local_table = [], hw_table = [], cpus = replicate 40 True, event_lock = False\<rparr>) =
     [16, 16, 8] \<and>
   update_capabilities True (\<lambda>c. \<lparr>perf_cap = 0, ee_cap = 0\<rparr>)
      \<lparr>local_table = [], hw_table = [], cpus = replicate 40 False, event_lock = False\<rparr> = []"
  using update_capabilities_batches
      [of True "\<lambda>c. \<lparr>perf_cap = 0, ee_cap = 0\<rparr>"
          "\<lparr>local_table = [], hw_table = [], cpus = replicate 40 True, event_lock = False\<rparr>"]
    update_capabilities_batches
      [of True "\<lambda>c. \<lparr>perf_cap = 0, ee_cap = 0\<rparr>"
          "\<lparr>local_table = [], hw_table = [], cpus = replicate 40 False, event_lock = False\<rparr>"]
  by (simp add: cpumask_weight_def numeral_2_eq_2)

text \<open>
  With 40 CPUs and a failed allocation of \<^verbatim>\<open>cpu_caps\<close> the run makes no call at all,
  not the three of counts 16, 16, 8.
\<close>

theorem update_capabilities_counterexample:
  "cpumask_weight (replicate 40 True) = 40 \<and>
   map ev_count (update_capabilities False (\<lambda>c. \<lparr>perf_cap = 0, ee_cap = 0\<rparr>)
      \<lparr>local_table = [], hw_table = [], cpus = replicate 40 True, event_lock = False\<rparr>) \<noteq>
     [16, 16, 8]"
  by (simp add: update_capabilities_def cpumask_weight_def)

subsection \<open>The event handler\<close>

lemma bit_read_u64:
  "bit (read_u64 bs) n \<longleftrightarrow> n < 64 \<and> n div 8 < length (take 8 bs) \<and> bit (take 8 bs ! (n div 8)) (n mod 8)"
proof -
  have "bit (horner_sum uint (2 ^ LENGTH(8)) (take 8 bs)) n \<longleftrightarrow>
      n div LENGTH(8) < length (take 8 bs) \<and> bit (take 8 bs ! (n div LENGTH(8))) (n mod LENGTH(8))"
    by (rule bit_horner_sum_uint_exp_iff)
  then show ?thesis
    by (simp add: read_u64_def word_rcat_def bit_word_of_int_iff)
qed

lemma read_u64_inj:
  assumes "8 \<le> length xs" and "8 \<le> length ys" and "read_u64 xs = read_u64 ys"
  shows "take 8 xs = take 8 ys"
proof (rule nth_equalityI)
  show "length (take 8 xs) = length (take 8 ys)" using assms by simp
next
  fix i assume "i < length (take 8 xs)"
  then have i: "i < 8" by simp
  show "take 8 xs ! i = take 8 ys ! i"
  proof (rule bit_word_eqI)
    fix j assume "j < LENGTH(8)"
    then have j: "j < 8" by simp
    have n: "8 * i + j < 64" "(8 * i + j) div 8 = i" "(8 * i + j) mod 8 = j" using i j by auto
    have "bit (read_u64 xs) (8 * i + j) = bit (read_u64 ys) (8 * i + j)" using assms(3) by simp
    then show "bit (take 8 xs ! i) j = bit (take 8 ys ! i) j"
      using n i assms(1,2) by (simp add: bit_read_u64)
  qed
qed

lemma read_u64_take: "read_u64 (take 8 bs) = read_u64 bs"
  by (simp add: read_u64_def)

lemma read_u64_eq_iff:
  assumes "8 \<le> length xs" and "8 \<le> length ys"
  shows "read_u64 xs = read_u64 ys \<longleftrightarrow> take 8 xs = take 8 ys"
  using read_u64_inj[OF assms] read_u64_take[of xs] read_u64_take[of ys] by auto

lemma process_dup:
  assumes "cpu_instance st = Some inst"
    and "take 8 (local_table inst) = take 8 (hw_table inst)"
  shows "intel_hfi_process_event feat u v st = st"
  using assms read_u64_take[of "local_table inst"] read_u64_take[of "hw_table inst"]
  by (simp add: intel_hfi_process_event_def Let_def)

lemma memcpy_whole: "length dst = n \<Longrightarrow> length src = n \<Longrightarrow> memcpy dst src n = src"
  by (simp add: memcpy_def)

lemma process_copy:
  assumes "cpu_instance st = Some inst" and "instance_ok feat inst"
    and "intel_hfi_process_event feat u v st \<noteq> st"
  shows "intel_hfi_process_event feat u v st =
      st\<lparr>cpu_instance := Some (inst\<lparr>local_table := hw_table inst\<rparr>),
         effects := effects st @
           [Wrmsrl_package_therm_status (v AND (THERM_STATUS_CLEAR_PKG_MASK AND NOT u)),
            Queue_delayed_update_work]\<rparr>"
  using assms
  by (auto simp add: intel_hfi_process_event_def Let_def instance_ok_def memcpy_whole split: if_splits)

lemma process_changes_iff:
  assumes "cpu_instance st = Some inst" and "instance_ok feat inst"
  shows "intel_hfi_process_event feat u v st \<noteq> st \<longleftrightarrow>
     v \<noteq> 0 \<and> \<not> event_lock inst \<and> take 8 (local_table inst) \<noteq> take 8 (hw_table inst)"
proof -
  have l: "8 \<le> length (local_table inst)" "8 \<le> length (hw_table inst)"
    using assms(2) by (auto simp: instance_ok_def PAGE_SHIFT_def)
  have neq: "st\<lparr>cpu_instance := Some (inst\<lparr>local_table := x\<rparr>),
                 effects := effects st @ es\<rparr> \<noteq> st" if "es \<noteq> []" for x es
  proof
    assume "st\<lparr>cpu_instance := Some (inst\<lparr>local_table := x\<rparr>),
               effects := effects st @ es\<rparr> = st"
    then have "effects (st\<lparr>cpu_instance := Some (inst\<lparr>local_table := x\<rparr>),
                            effects := effects st @ es\<rparr>) = effects st"
      by simp
    with that show False by simp
  qed
  show ?thesis
    using assms(1) read_u64_eq_iff[OF l] neq
    by (auto simp add: intel_hfi_process_event_def Let_def)
qed

lemma process_again:
  assumes "cpu_instance st = Some inst" and "instance_ok feat inst"
    and "intel_hfi_process_event feat u v st \<noteq> st"
  shows "intel_hfi_process_event feat u v' (intel_hfi_process_event feat u v st) =
         intel_hfi_process_event feat u v st"
  by (subst (1 2) process_copy [OF assms],
      rule process_dup [where inst = "inst\<lparr>local_table := hw_table inst\<rparr>"]) simp_all

text \<open>
  C2. When the first eight bytes of the local table equal the first eight bytes of the
  hardware table, \<^verbatim>\<open>intel_hfi_process_event\<close> returns with the whole state as it was: the
  local table unchanged, no write to the thermal status register, no work queued. A run
  that changes anything (for an instance with its tables in place, that is a run with a
  nonzero status word, the event lock free and the two timestamps different) copies the
  hardware table, so that afterwards the local table's first eight bytes are those of
  the hardware table; it then writes the register and queues the work, and a further run,
  with any status word, on the unchanged hardware table changes nothing.
\<close>

theorem intel_hfi_process_event_dedup:
  "(cpu_instance st = Some inst \<and> take 8 (local_table inst) = take 8 (hw_table inst) \<longrightarrow>
      intel_hfi_process_event feat u v st = st) \<and>
   (cpu_instance st = Some inst \<and> instance_ok feat inst \<longrightarrow>
      (intel_hfi_process_event feat u v st \<noteq> st \<longleftrightarrow>
         v \<noteq> 0 \<and> \<not> event_lock inst \<and>
         take 8 (local_table inst) \<noteq> take 8 (hw_table inst))) \<and>
   (cpu_instance st = Some inst \<and> instance_ok feat inst \<and>
    intel_hfi_process_event feat u v st \<noteq> st \<longrightarrow>
      intel_hfi_process_event feat u v st =
        st\<lparr>cpu_instance := Some (inst\<lparr>local_table := hw_table inst\<rparr>),
           effects := effects st @
             [Wrmsrl_package_therm_status (v AND (THERM_STATUS_CLEAR_PKG_MASK AND NOT u)),
              Queue_delayed_update_work]\<rparr> \<and>
      map_option (\<lambda>i. take 8 (local_table i))
          (cpu_instance (intel_hfi_process_event feat u v st)) =
        Some (take 8 (hw_table inst)) \<and>
      map_option hw_table (cpu_instance (intel_hfi_process_event feat u v st)) =
        Some (hw_table inst) \<and>
      intel_hfi_process_event feat u v' (intel_hfi_process_event feat u v st) =
        intel_hfi_process_event feat u v st)"
proof (intro conjI impI)
  assume "cpu_instance st = Some inst \<and> take 8 (local_table inst) = take 8 (hw_table inst)"
  then show "intel_hfi_process_event feat u v st = st"
    using process_dup [of st inst feat u v] by simp
next
  assume "cpu_instance st = Some inst \<and> instance_ok feat inst"
  then show "intel_hfi_process_event feat u v st \<noteq> st \<longleftrightarrow>
      v \<noteq> 0 \<and> \<not> event_lock inst \<and> take 8 (local_table inst) \<noteq> take 8 (hw_table inst)"
    using process_changes_iff [of st inst feat u v] by simp
next
  assume a: "cpu_instance st = Some inst \<and> instance_ok feat inst \<and>
    intel_hfi_process_event feat u v st \<noteq> st"
  then have c: "intel_hfi_process_event feat u v st =
        st\<lparr>cpu_instance := Some (inst\<lparr>local_table := hw_table inst\<rparr>),
           effects := effects st @
             [Wrmsrl_package_therm_status (v AND (THERM_STATUS_CLEAR_PKG_MASK AND NOT u)),
              Queue_delayed_update_work]\<rparr>"
    using process_copy [of st inst feat u v] by simp
  then show "intel_hfi_process_event feat u v st =
        st\<lparr>cpu_instance := Some (inst\<lparr>local_table := hw_table inst\<rparr>),
           effects := effects st @
             [Wrmsrl_package_therm_status (v AND (THERM_STATUS_CLEAR_PKG_MASK AND NOT u)),
              Queue_delayed_update_work]\<rparr>" .
  show "map_option (\<lambda>i. take 8 (local_table i))
          (cpu_instance (intel_hfi_process_event feat u v st)) =
        Some (take 8 (hw_table inst))"
    by (subst c) simp
  show "map_option hw_table (cpu_instance (intel_hfi_process_event feat u v st)) =
        Some (hw_table inst)"
    by (subst c) simp
  from a show "intel_hfi_process_event feat u v' (intel_hfi_process_event feat u v st) =
        intel_hfi_process_event feat u v st"
    using process_again [of st inst feat u v v'] by simp
qed

theorem intel_hfi_process_event_dedup_witness:
  "intel_hfi_process_event
      \<lparr>nr_classes = 1, nr_table_pages = 1, cpu_stride = 8, class_stride = 2, hdr_size = 8\<rparr>
      (BIT 26) (BIT 26)
      \<lparr>cpu_instance = Some \<lparr>local_table = replicate 4096 7, hw_table = replicate 4096 7,
                            cpus = [True], event_lock = False\<rparr>,
       effects = []\<rparr> =
     \<lparr>cpu_instance = Some \<lparr>local_table = replicate 4096 7, hw_table = replicate 4096 7,
                            cpus = [True], event_lock = False\<rparr>,
       effects = []\<rparr> \<and>
   intel_hfi_process_event
      \<lparr>nr_classes = 1, nr_table_pages = 1, cpu_stride = 8, class_stride = 2, hdr_size = 8\<rparr>
      (BIT 26) (BIT 26)
      \<lparr>cpu_instance = Some \<lparr>local_table = replicate 4096 0, hw_table = replicate 4096 7,
                            cpus = [True], event_lock = False\<rparr>,
       effects = []\<rparr> =
     \<lparr>cpu_instance = Some \<lparr>local_table = replicate 4096 7, hw_table = replicate 4096 7,
                            cpus = [True], event_lock = False\<rparr>,
       effects = [Wrmsrl_package_therm_status 0, Queue_delayed_update_work]\<rparr>"
  using intel_hfi_process_event_dedup
      [of "\<lparr>cpu_instance = Some \<lparr>local_table = replicate 4096 7, hw_table = replicate 4096 7,
                            cpus = [True], event_lock = False\<rparr>, effects = []\<rparr>"
          "\<lparr>local_table = replicate 4096 7, hw_table = replicate 4096 7,
                            cpus = [True], event_lock = False\<rparr>"
          "\<lparr>nr_classes = 1, nr_table_pages = 1, cpu_stride = 8, class_stride = 2, hdr_size = 8\<rparr>"
          "BIT 26" "BIT 26" 1]
    intel_hfi_process_event_dedup
      [of "\<lparr>cpu_instance = Some \<lparr>local_table = replicate 4096 0, hw_table = replicate 4096 7,
                            cpus = [True], event_lock = False\<rparr>, effects = []\<rparr>"
          "\<lparr>local_table = replicate 4096 0, hw_table = replicate 4096 7,
                            cpus = [True], event_lock = False\<rparr>"
          "\<lparr>nr_classes = 1, nr_table_pages = 1, cpu_stride = 8, class_stride = 2, hdr_size = 8\<rparr>"
          "BIT 26" "BIT 26" 1]
  by (simp add: instance_ok_def PAGE_SHIFT_def BIT_def THERM_STATUS_CLEAR_PKG_MASK_def)

section \<open>Properties of the zblock allocator\<close>

subsection \<open>Handles\<close>

lemma small_bits:
  fixes w :: "'a::len word"
  assumes "unat w < 2 ^ k" and "bit w n"
  shows "n < k"
proof (rule ccontr)
  assume "\<not> n < k"
  then have "k \<le> n" by simp
  from assms(2) have "bit (unat w) n" by (simp add: bit_unsigned_iff)
  then have "odd (unat w div 2 ^ n)" by (simp add: bit_iff_odd)
  then have "unat w div 2 ^ n \<noteq> 0" by (rule_tac notI) simp
  then have "2 ^ n \<le> unat w" by (rule_tac ccontr) simp
  moreover have "(2::nat) ^ k \<le> 2 ^ n" using \<open>k \<le> n\<close> by simp
  ultimately show False using assms(1) by simp
qed

lemma aligned_bits:
  assumes "b AND (PAGE_SIZE - 1) = 0" and "bit b n"
  shows "12 \<le> n"
proof (rule ccontr)
  assume "\<not> 12 \<le> n"
  then have n: "n < 12" by simp
  have m: "PAGE_SIZE - 1 = mask 12" by (simp add: PAGE_SIZE_def PAGE_SHIFT_def mask_eq_exp_minus_1)
  have "bit (b AND mask 12) n" using assms(2) n by (simp add: bit_simps)
  with assms(1) m show False by simp
qed

lemma page_mask_bits: "bit PAGE_MASK n \<longleftrightarrow> 12 \<le> n \<and> n < 64"
proof -
  have m: "PAGE_SIZE - 1 = mask 12" by (simp add: PAGE_SIZE_def PAGE_SHIFT_def mask_eq_exp_minus_1)
  show ?thesis by (auto simp add: PAGE_MASK_def m bit_simps)
qed

lemma page_low_bits: "bit (PAGE_SIZE - 1) n \<longleftrightarrow> n < 12"
proof -
  have m: "PAGE_SIZE - 1 = mask 12" by (simp add: PAGE_SIZE_def PAGE_SHIFT_def mask_eq_exp_minus_1)
  show ?thesis by (auto simp add: m bit_simps)
qed

lemma slot_mask_bits: "bit SLOT_MASK n \<longleftrightarrow> n < 5"
proof -
  have m: "SLOT_MASK = mask 5" by (simp add: SLOT_MASK_def SLOT_BITS_def mask_eq_exp_minus_1)
  show ?thesis by (auto simp add: m bit_simps)
qed

lemma handle_or:
  assumes "b AND (PAGE_SIZE - 1) = 0" and "unat t < 128" and "unat s < 32"
  shows "metadata_to_handle b t s = b OR ucast (push_bit SLOT_BITS t) OR ucast s"
proof -
  have t: "bit t n \<Longrightarrow> n < 7" for n using small_bits[of t 7 n] assms(2) by simp
  have s: "bit s n \<Longrightarrow> n < 5" for n using small_bits[of s 5 n] assms(3) by simp
  have b: "bit b n \<Longrightarrow> 12 \<le> n" for n using aligned_bits[OF assms(1)] by simp
  have 1: "b + ucast (push_bit SLOT_BITS t) = b OR ucast (push_bit SLOT_BITS t)"
    by (rule disjunctive_add) (auto simp: bit_simps SLOT_BITS_def dest!: b t)
  have 2: "(b OR ucast (push_bit SLOT_BITS t)) + ucast s =
      (b OR ucast (push_bit SLOT_BITS t)) OR ucast s"
    by (rule disjunctive_add) (auto simp: bit_simps SLOT_BITS_def dest!: b t s)
  show ?thesis by (simp add: metadata_to_handle_def 1 2 or.assoc)
qed

lemma handle_roundtrip:
  assumes "b AND (PAGE_SIZE - 1) = 0" and "unat t < 128" and "unat s < 32"
  shows "handle_to_metadata (metadata_to_handle b t s) = (b, t, s)"
proof -
  have t: "bit t n \<Longrightarrow> n < 7" for n using small_bits [of t 7 n] assms(2) by simp
  have s: "bit s n \<Longrightarrow> n < 5" for n using small_bits [of s 5 n] assms(3) by simp
  have b: "bit b n \<Longrightarrow> 12 \<le> n" for n using aligned_bits [OF assms(1)] by simp
  note h = handle_or [OF assms]
  have 1: "(b OR ucast (push_bit SLOT_BITS t) OR ucast s) AND PAGE_MASK = b"
    by (rule bit_word_eqI) (auto simp: bit_simps page_mask_bits SLOT_BITS_def dest: b t s)
  have 2: "ucast (drop_bit SLOT_BITS
      ((b OR ucast (push_bit SLOT_BITS t) OR ucast s) AND (PAGE_SIZE - 1))) = t"
    by (rule bit_word_eqI) (auto simp: bit_simps page_low_bits SLOT_BITS_def dest: b t s)
  have 3: "ucast ((b OR ucast (push_bit SLOT_BITS t) OR ucast s) AND SLOT_MASK) = s"
    by (rule bit_word_eqI) (auto simp: bit_simps slot_mask_bits SLOT_BITS_def dest: b t s)
  show ?thesis unfolding handle_to_metadata_def h by (simp only: 1 2 3)
qed

lemma page_slots: "unat (drop_bit SLOT_BITS PAGE_SIZE) = 128"
  by (simp add: PAGE_SIZE_def PAGE_SHIFT_def SLOT_BITS_def)

lemma free_same_slot:
  assumes "handle_to_metadata h = (b, t, s)" and "mem pool b = Some blk"
    and "\<not> under_reclaim blk" and "zblock_free hdr pool h = Inr pool'"
    and "mem pool' b = Some blk'"
  shows "slot_info blk' = (slot_info blk)[unat s := SLOT_FREE] \<and>
         free_slots blk' = free_slots blk + 1"
  using assms
  by (auto simp: zblock_free_def Let_def split: if_splits sum.splits option.splits)

text \<open>
  C5. For a page-aligned block address, a block type below \<^verbatim>\<open>PAGE_SIZE >> SLOT_BITS\<close>
  (which \<^verbatim>\<open>ARRAY_SIZE(block_desc)\<close> does not exceed) and a slot below \<^verbatim>\<open>MAX_SLOTS\<close>,
  decoding the encoded handle gives back the block, the type and the slot. So
  \<^verbatim>\<open>zblock_unmap\<close>, \<^verbatim>\<open>zblock_map\<close> and \<^verbatim>\<open>zblock_free\<close>, given that handle, all act on that
  slot of that block.
\<close>

theorem handle_to_metadata_metadata_to_handle:
  "ARRAY_SIZE_block_desc \<le> unat (drop_bit SLOT_BITS PAGE_SIZE) \<and>
   (b AND (PAGE_SIZE - 1) = 0 \<and> unat t < unat (drop_bit SLOT_BITS PAGE_SIZE) \<and>
    unat s < MAX_SLOTS \<longrightarrow>
      handle_to_metadata (metadata_to_handle b t s) = (b, t, s) \<and>
      (mem pool b = Some blk \<longrightarrow>
         zblock_unmap pool (metadata_to_handle b t s) =
           Inr (pool\<lparr>mem := (mem pool)
                  (b \<mapsto> blk\<lparr>slot_info := (slot_info blk)[unat s := SLOT_UNMAPPED]\<rparr>)\<rparr>)) \<and>
      (mem pool b = Some blk \<and> unat t < ARRAY_SIZE_block_desc \<longrightarrow>
         zblock_map hdr pool (metadata_to_handle b t s) =
           Inr (pool\<lparr>mem := (mem pool)
                  (b \<mapsto> blk\<lparr>slot_info := (slot_info blk)[unat s := SLOT_MAPPED]\<rparr>)\<rparr>,
                b + hdr + ucast (s * slot_size (block_desc hdr ! unat t)))) \<and>
      (mem pool b = Some blk \<and> \<not> under_reclaim blk \<and>
       zblock_free hdr pool (metadata_to_handle b t s) = Inr pool' \<and>
       mem pool' b = Some blk' \<longrightarrow>
         slot_info blk' = (slot_info blk)[unat s := SLOT_FREE] \<and>
         free_slots blk' = free_slots blk + 1))"
proof (intro conjI impI)
  show "ARRAY_SIZE_block_desc \<le> unat (drop_bit SLOT_BITS PAGE_SIZE)"
    by (simp add: page_slots ARRAY_SIZE_block_desc_def)
next
  assume a: "b AND (PAGE_SIZE - 1) = 0 \<and> unat t < unat (drop_bit SLOT_BITS PAGE_SIZE) \<and>
    unat s < MAX_SLOTS"
  then have "unat t < 128" by (simp add: page_slots)
  moreover from a have "unat s < 32" by (simp add: MAX_SLOTS_def SLOT_BITS_def)
  ultimately have r: "handle_to_metadata (metadata_to_handle b t s) = (b, t, s)"
    using a handle_roundtrip [of b t s] by simp
  then show "handle_to_metadata (metadata_to_handle b t s) = (b, t, s)" .
  {
    assume "mem pool b = Some blk"
    then show "zblock_unmap pool (metadata_to_handle b t s) =
           Inr (pool\<lparr>mem := (mem pool)
                  (b \<mapsto> blk\<lparr>slot_info := (slot_info blk)[unat s := SLOT_UNMAPPED]\<rparr>)\<rparr>)"
      by (simp add: zblock_unmap_def r)
  }
  {
    assume "mem pool b = Some blk \<and> unat t < ARRAY_SIZE_block_desc"
    then show "zblock_map hdr pool (metadata_to_handle b t s) =
           Inr (pool\<lparr>mem := (mem pool)
                  (b \<mapsto> blk\<lparr>slot_info := (slot_info blk)[unat s := SLOT_MAPPED]\<rparr>)\<rparr>,
                b + hdr + ucast (s * slot_size (block_desc hdr ! unat t)))"
      by (simp add: zblock_map_def r)
  }
  {
    assume a: "mem pool b = Some blk \<and> \<not> under_reclaim blk \<and>
       zblock_free hdr pool (metadata_to_handle b t s) = Inr pool' \<and>
       mem pool' b = Some blk'"
    then have f: "slot_info blk' = (slot_info blk)[unat s := SLOT_FREE] \<and>
         free_slots blk' = free_slots blk + 1"
      using free_same_slot [OF r, of pool blk hdr pool' blk'] by simp
    from f show "slot_info blk' = (slot_info blk)[unat s := SLOT_FREE]" by simp
    from f show "free_slots blk' = free_slots blk + 1" by simp
  }
qed

theorem handle_to_metadata_metadata_to_handle_witness:
  "handle_to_metadata (metadata_to_handle 0x10000 28 1) = (0x10000, 28, 1) \<and>
   zblock_unmap example_pool (metadata_to_handle 0x10000 28 1) =
     Inr (example_pool\<lparr>mem := (mem example_pool)
        (0x10000 \<mapsto> example_block\<lparr>slot_info := (slot_info example_block)[unat (1 :: 32 word) := SLOT_UNMAPPED]\<rparr>)\<rparr>) \<and>
   zblock_map 64 example_pool (metadata_to_handle 0x10000 28 1) =
     Inr (example_pool\<lparr>mem := (mem example_pool)
        (0x10000 \<mapsto> example_block\<lparr>slot_info := (slot_info example_block)[unat (1 :: 32 word) := SLOT_MAPPED]\<rparr>)\<rparr>,
          0x10000 + 64 + ucast (1 * slot_size (block_desc 64 ! unat (28 :: 32 word)))) \<and>
   slot_info (the (mem (projr (zblock_free 64 example_pool (metadata_to_handle 0x10000 28 1))) 0x10000)) =
     (slot_info example_block)[unat (1 :: 32 word) := SLOT_FREE]"
proof -
  let ?h = "metadata_to_handle 0x10000 28 1"
  let ?p = "projr (zblock_free 64 example_pool ?h)"
  have 1: "(0x10000 :: 64 word) AND (PAGE_SIZE - 1) = 0 \<and>
      unat (28 :: 32 word) < unat (drop_bit SLOT_BITS PAGE_SIZE) \<and> unat (1 :: 32 word) < MAX_SLOTS"
    by code_simp
  have 2: "mem example_pool 0x10000 = Some example_block"
    by (simp add: example_pool_def)
  have 3: "unat (28 :: 32 word) < ARRAY_SIZE_block_desc"
    by code_simp
  have 4: "\<not> under_reclaim example_block"
    by code_simp
  have "\<not> isl (zblock_free 64 example_pool ?h)"
    by code_simp
  then have 5: "zblock_free 64 example_pool ?h = Inr ?p"
    by simp
  have "mem ?p 0x10000 \<noteq> None"
    by code_simp
  then have 6: "mem ?p 0x10000 = Some (the (mem ?p 0x10000))"
    by simp
  from handle_to_metadata_metadata_to_handle
      [of "0x10000" 28 1 example_pool example_block 64 ?p "the (mem ?p 0x10000)"]
    1 2 3 4 5 6
  show ?thesis by blast
qed

subsection \<open>Size classes\<close>

lemma no_between: "\<not> ((k::nat) \<le> t \<and> t < k)"
  by arith

lemma length_block_desc: "length (block_desc hdr) = ARRAY_SIZE_block_desc"
  by (simp add: block_desc_def ARRAY_SIZE_block_desc_def)

lemma select_block_type_spec:
  "k \<le> select_block_type hdr sz k \<and>
   (\<forall>t. k \<le> t \<and> t < select_block_type hdr sz k \<longrightarrow>
        ucast (slot_size (block_desc hdr ! t)) < sz) \<and>
   (select_block_type hdr sz k < ARRAY_SIZE_block_desc \<longrightarrow>
      sz \<le> ucast (slot_size (block_desc hdr ! select_block_type hdr sz k))) \<and>
   (k \<le> ARRAY_SIZE_block_desc \<longrightarrow> select_block_type hdr sz k \<le> ARRAY_SIZE_block_desc)"
proof (induction hdr sz k rule: select_block_type.induct)
  case (1 hdr sz k)
  show ?case
  proof (cases "k < ARRAY_SIZE_block_desc")
    case False
    then have e: "select_block_type hdr sz k = k"
      by (subst select_block_type.simps) simp
    from False show ?thesis unfolding e by (simp add: no_between)
  next
    case True
    show ?thesis
    proof (cases "sz \<le> ucast (slot_size (block_desc hdr ! k))")
      case le: True
      with True have e: "select_block_type hdr sz k = k"
        by (subst select_block_type.simps) simp
      from True le show ?thesis unfolding e by (simp add: no_between)
    next
      case gt: False
      let ?r = "select_block_type hdr sz (k + 1)"
      from True gt have e: "select_block_type hdr sz k = ?r"
        by (subst select_block_type.simps) simp
      note ih = "1.IH" [OF True gt]
      from ih have 1: "k + 1 \<le> ?r" by blast
      from ih have 2: "ucast (slot_size (block_desc hdr ! t)) < sz"
        if "k + 1 \<le> t" and "t < ?r" for t using that by blast
      from ih have 3: "?r < ARRAY_SIZE_block_desc \<longrightarrow>
          sz \<le> ucast (slot_size (block_desc hdr ! ?r))" by blast
      from ih True have 4: "?r \<le> ARRAY_SIZE_block_desc" by simp
      have 5: "ucast (slot_size (block_desc hdr ! t)) < sz" if "k \<le> t" and "t < ?r" for t
      proof (cases "t = k")
        case True
        with gt show ?thesis by simp
      next
        case False
        with that(1) have "k + 1 \<le> t" by simp
        then show ?thesis using that(2) by (rule 2)
      qed
      from 1 have 6: "k \<le> ?r" by simp
      show ?thesis unfolding e using 3 4 5 6 by blast
    qed
  qed
qed

lemma select_in_range:
  assumes "\<not> ucast (slot_size (block_desc hdr ! (ARRAY_SIZE_block_desc - 1))) < PAGE_SIZE"
    and "sz \<le> PAGE_SIZE"
  shows "select_block_type hdr sz 0 < ARRAY_SIZE_block_desc"
proof (rule ccontr)
  assume "\<not> select_block_type hdr sz 0 < ARRAY_SIZE_block_desc"
  then have "ARRAY_SIZE_block_desc - 1 < select_block_type hdr sz 0"
    by (simp add: ARRAY_SIZE_block_desc_def)
  then have "ucast (slot_size (block_desc hdr ! (ARRAY_SIZE_block_desc - 1))) < sz"
    using select_block_type_spec[of 0 hdr sz] by blast
  with assms show False by simp
qed

lemma block_desc_64:
  "block_desc 64 =
     map (\<lambda>(sz, n, ord). \<lparr>slot_size = sz, slots_per_block = n, order = ord\<rparr>)
       [(120, 32, 0), (176, 22, 0), (232, 17, 0), (304, 13, 0), (360, 11, 0), (448, 9, 0),
        (504, 8, 0), (576, 14, 1), (672, 12, 1), (736, 11, 1), (808, 10, 1), (896, 9, 1),
        (1016, 8, 1), (1088, 15, 2), (1160, 14, 2), (1248, 13, 2), (1360, 12, 2),
        (1480, 11, 2), (1632, 10, 2), (1808, 9, 2), (2040, 8, 2), (2176, 15, 3),
        (2336, 14, 3), (2512, 13, 3), (2720, 12, 3), (2968, 11, 3), (3264, 10, 3),
        (3632, 9, 3), (4672, 7, 3)]"
  by (simp add: block_desc_def SLOT_SIZE_def BLOCK_DATA_SIZE_def PAGE_SIZE_def PAGE_SHIFT_def)

lemma select_block_type_64:
  shows "select_block_type 64 1 0 = 0" and "select_block_type 64 64 0 = 0"
    and "select_block_type 64 2048 0 = 21" and "select_block_type 64 4096 0 = 28"
  by (simp_all add: select_block_type.simps block_desc_64 ARRAY_SIZE_block_desc_def)

lemma example_pool_alloc:
  "\<exists>p h. zblock_alloc 64 None example_pool 4096 = Some (Inr (p, Inr h))"
proof -
  have c: "alloc_check 64 None example_pool 28 = Some (Inr (example_pool, Blk 0x10000))"
    by (subst alloc_check.simps)
       (simp add: example_pool_def example_block_def cache_find_block_def
          ARRAY_SIZE_block_desc_def BLOCK_CACHE_SIZE_def)
  have f: "first_free_slot (example_block\<lparr>free_slots := free_slots example_block - 1\<rparr>) 7 0 = 2"
    by (simp add: first_free_slot.simps example_block_def SLOT_FREE_def SLOT_OCCUPIED_def)
  have m: "mem example_pool 0x10000 = Some example_block"
    by (simp add: example_pool_def)
  show ?thesis
    by (simp add: zblock_alloc_def select_block_type_64 c alloc_found_def f m Let_def
          PAGE_SIZE_def PAGE_SHIFT_def ARRAY_SIZE_block_desc_def block_desc_64
          MAX_SLOTS_def SLOT_BITS_def)
qed

subsection \<open>The slot scan of \<^verbatim>\<open>zblock_alloc\<close>\<close>

lemma first_free_slot_spec:
  "k \<le> first_free_slot b n k \<and>
   (\<forall>i. k \<le> i \<and> i < first_free_slot b n k \<longrightarrow> slot_info b ! i \<noteq> SLOT_FREE) \<and>
   (first_free_slot b n k < n \<longrightarrow> slot_info b ! first_free_slot b n k = SLOT_FREE) \<and>
   (k \<le> n \<longrightarrow> first_free_slot b n k \<le> n)"
proof (induction b n k rule: first_free_slot.induct)
  case (1 b n k)
  show ?case
  proof (cases "k < n")
    case False
    then have e: "first_free_slot b n k = k"
      by (subst first_free_slot.simps) simp
    from False show ?thesis unfolding e by (simp add: no_between)
  next
    case True
    show ?thesis
    proof (cases "slot_info b ! k = SLOT_FREE")
      case le: True
      with True have e: "first_free_slot b n k = k"
        by (subst first_free_slot.simps) simp
      from True le show ?thesis unfolding e by (simp add: no_between)
    next
      case gt: False
      let ?r = "first_free_slot b n (k + 1)"
      from True gt have e: "first_free_slot b n k = ?r"
        by (subst first_free_slot.simps) simp
      note ih = "1.IH" [OF True gt]
      from ih have 1: "k + 1 \<le> ?r" by blast
      from ih have 2: "slot_info b ! i \<noteq> SLOT_FREE"
        if "k + 1 \<le> i" and "i < ?r" for i using that by blast
      from ih have 3: "?r < n \<longrightarrow> slot_info b ! ?r = SLOT_FREE" by blast
      from ih True have 4: "?r \<le> n" by simp
      have 5: "slot_info b ! i \<noteq> SLOT_FREE" if "k \<le> i" and "i < ?r" for i
      proof (cases "i = k")
        case True
        with gt show ?thesis by simp
      next
        case False
        with that(1) have "k + 1 \<le> i" by simp
        then show ?thesis using that(2) by (rule 2)
      qed
      from 1 have 6: "k \<le> ?r" by simp
      show ?thesis unfolding e using 3 4 5 6 by blast
    qed
  qed
qed

lemma first_free_slot_info: "first_free_slot (b\<lparr>free_slots := f\<rparr>) n k = first_free_slot b n k"
proof (induction b n k rule: first_free_slot.induct)
  case (1 b n k)
  show ?case
  proof (cases "k < n \<and> slot_info b ! k \<noteq> SLOT_FREE")
    case True
    then show ?thesis
      using "1.IH" by (subst (1 2) first_free_slot.simps) simp
  next
    case False
    then show ?thesis
      by (subst (1 2) first_free_slot.simps) auto
  qed
qed

lemma free_slot_exists:
  assumes "ZB_I1 n b" and "free_slots b \<noteq> 0"
  shows "\<exists>i. i < n \<and> i < length (slot_info b) \<and> slot_info b ! i = SLOT_FREE"
proof -
  from assms have "filter (\<lambda>x. x = SLOT_FREE) (take n (slot_info b)) \<noteq> []"
    by (auto simp: ZB_I1_def unat_eq_0)
  then obtain x where "x \<in> set (take n (slot_info b))" and "x = SLOT_FREE"
    by (auto simp: filter_empty_conv)
  then obtain i where "i < length (take n (slot_info b))" and "take n (slot_info b) ! i = SLOT_FREE"
    by (auto simp: in_set_conv_nth)
  then show ?thesis by auto
qed

lemma first_free_slot_found:
  assumes "ZB_I1 n b" and "free_slots b \<noteq> 0"
  shows "first_free_slot (b\<lparr>free_slots := free_slots b - 1\<rparr>) n 0 < n \<and>
         first_free_slot (b\<lparr>free_slots := free_slots b - 1\<rparr>) n 0 < length (slot_info b) \<and>
         slot_info b ! first_free_slot (b\<lparr>free_slots := free_slots b - 1\<rparr>) n 0 = SLOT_FREE"
proof -
  let ?r = "first_free_slot b n 0"
  from free_slot_exists [OF assms] obtain i where
    i: "i < n" "i < length (slot_info b)" "slot_info b ! i = SLOT_FREE" by blast
  have "\<not> i < ?r" using first_free_slot_spec [of 0 b n] i(3) by auto
  then have le: "?r \<le> i" by simp
  with i have "?r < n" "?r < length (slot_info b)" by simp_all
  moreover from this have "slot_info b ! ?r = SLOT_FREE"
    using first_free_slot_spec [of 0 b n] by simp
  ultimately show ?thesis by (simp add: first_free_slot_info)
qed

lemma first_free_slot_none:
  assumes "\<forall>i < n. slot_info b ! i \<noteq> SLOT_FREE"
  shows "first_free_slot b n 0 = n"
proof -
  have "\<not> first_free_slot b n 0 < n"
    using first_free_slot_spec [of 0 b n] assms by auto
  moreover have "first_free_slot b n 0 \<le> n"
    using first_free_slot_spec [of 0 b n] by simp
  ultimately show ?thesis by simp
qed

text \<open>
  C10. For a block that satisfies ZB-I1 and has \<^verbatim>\<open>free_slots > 0\<close> when it is selected,
  the scan for the first free slot, run after the decrement, stops at an index below
  \<^verbatim>\<open>slots_per_block\<close> and inside \<^verbatim>\<open>slot_info\<close>, at a free slot; so the step from the
  label \<^verbatim>\<open>found\<close> on marks that slot occupied and returns its handle. The scan has no
  failure branch: over a block with no free slot it runs to \<^verbatim>\<open>slots_per_block\<close>, and
  for the type with \<^verbatim>\<open>MAX_SLOTS\<close> slots the write that follows is outside the array.
\<close>

theorem first_free_slot_in_range:
  "(ZB_I1 n b \<and> free_slots b \<noteq> 0 \<longrightarrow>
      first_free_slot (b\<lparr>free_slots := free_slots b - 1\<rparr>) n 0 < n \<and>
      first_free_slot (b\<lparr>free_slots := free_slots b - 1\<rparr>) n 0 < length (slot_info b) \<and>
      slot_info b ! first_free_slot (b\<lparr>free_slots := free_slots b - 1\<rparr>) n 0 = SLOT_FREE) \<and>
   (ZB_I1 (slots_per_block (block_desc hdr ! t)) b \<and> free_slots b \<noteq> 0 \<and>
    length (slot_info b) = MAX_SLOTS \<and> mem pool a = Some b \<longrightarrow>
      (\<exists>slot < slots_per_block (block_desc hdr ! t).
         alloc_found hdr pool t (Blk a) =
           Inr (pool\<lparr>mem := (mem pool)
                  (a \<mapsto> b\<lparr>free_slots := free_slots b - 1,
                           slot_info := (slot_info b)[slot := SLOT_OCCUPIED]\<rparr>),
                     alloc_flag := 0\<rparr>,
                metadata_to_handle a (of_nat t) (of_nat slot)))) \<and>
   ((\<forall>i < n. slot_info b ! i \<noteq> SLOT_FREE) \<longrightarrow> first_free_slot b n 0 = n) \<and>
   ((\<forall>i < MAX_SLOTS. slot_info b ! i \<noteq> SLOT_FREE) \<and> mem pool a = Some b \<longrightarrow>
      alloc_found hdr pool 0 (Blk a) = Inl Out_of_bounds)"
proof (intro conjI impI)
  assume a: "ZB_I1 n b \<and> free_slots b \<noteq> 0"
  then have r: "first_free_slot (b\<lparr>free_slots := free_slots b - 1\<rparr>) n 0 < n \<and>
         first_free_slot (b\<lparr>free_slots := free_slots b - 1\<rparr>) n 0 < length (slot_info b) \<and>
         slot_info b ! first_free_slot (b\<lparr>free_slots := free_slots b - 1\<rparr>) n 0 = SLOT_FREE"
    using first_free_slot_found [of n b] by simp
  from r show "first_free_slot (b\<lparr>free_slots := free_slots b - 1\<rparr>) n 0 < n" by simp
  from r show "first_free_slot (b\<lparr>free_slots := free_slots b - 1\<rparr>) n 0 < length (slot_info b)"
    by simp
  from r show "slot_info b ! first_free_slot (b\<lparr>free_slots := free_slots b - 1\<rparr>) n 0 = SLOT_FREE"
    by simp
next
  let ?n = "slots_per_block (block_desc hdr ! t)"
  let ?slot = "first_free_slot (b\<lparr>free_slots := free_slots b - 1\<rparr>) ?n 0"
  assume a: "ZB_I1 ?n b \<and> free_slots b \<noteq> 0 \<and> length (slot_info b) = MAX_SLOTS \<and>
    mem pool a = Some b"
  then have r: "?slot < ?n" "?slot < MAX_SLOTS"
    using first_free_slot_found [of ?n b] by simp_all
  with a have "alloc_found hdr pool t (Blk a) =
           Inr (pool\<lparr>mem := (mem pool)
                  (a \<mapsto> b\<lparr>free_slots := free_slots b - 1,
                           slot_info := (slot_info b)[?slot := SLOT_OCCUPIED]\<rparr>),
                     alloc_flag := 0\<rparr>,
                metadata_to_handle a (of_nat t) (of_nat ?slot))"
    by (simp add: alloc_found_def Let_def)
  with r(1) show "\<exists>slot < ?n.
         alloc_found hdr pool t (Blk a) =
           Inr (pool\<lparr>mem := (mem pool)
                  (a \<mapsto> b\<lparr>free_slots := free_slots b - 1,
                           slot_info := (slot_info b)[slot := SLOT_OCCUPIED]\<rparr>),
                     alloc_flag := 0\<rparr>,
                metadata_to_handle a (of_nat t) (of_nat slot))"
    by blast
next
  assume "\<forall>i < n. slot_info b ! i \<noteq> SLOT_FREE"
  then show "first_free_slot b n 0 = n" by (rule first_free_slot_none)
next
  assume a: "(\<forall>i < MAX_SLOTS. slot_info b ! i \<noteq> SLOT_FREE) \<and> mem pool a = Some b"
  have n: "slots_per_block (block_desc hdr ! 0) = MAX_SLOTS"
    by (simp add: block_desc_def MAX_SLOTS_def SLOT_BITS_def)
  from a have "first_free_slot (b\<lparr>free_slots := free_slots b - 1\<rparr>) MAX_SLOTS 0 = MAX_SLOTS"
    using first_free_slot_none [of MAX_SLOTS b] by (simp add: first_free_slot_info)
  with a n show "alloc_found hdr pool 0 (Blk a) = Inl Out_of_bounds"
    by (simp add: alloc_found_def Let_def)
qed

theorem first_free_slot_in_range_witness:
  "first_free_slot (example_block\<lparr>free_slots := free_slots example_block - 1\<rparr>) 7 0 < 7 \<and>
   first_free_slot \<lparr>slot_info = replicate 32 SLOT_OCCUPIED, free_slots = 0, under_reclaim = False\<rparr>
     32 0 = 32"
proof -
  have 1: "ZB_I1 7 example_block \<and> free_slots example_block \<noteq> 0"
    by (simp add: ZB_I1_def example_block_def SLOT_FREE_def SLOT_OCCUPIED_def)
  have 2: "\<forall>i < 32. slot_info \<lparr>slot_info = replicate 32 SLOT_OCCUPIED, free_slots = 0,
      under_reclaim = False\<rparr> ! i \<noteq> SLOT_FREE"
    by (simp add: SLOT_OCCUPIED_def SLOT_FREE_def)
  from first_free_slot_in_range [of 7 example_block]
    first_free_slot_in_range [of 32 "\<lparr>slot_info = replicate 32 SLOT_OCCUPIED, free_slots = 0,
      under_reclaim = False\<rparr>"] 1 2
  show ?thesis by blast
qed

subsection \<open>Free during reclaim\<close>

lemma free_under_reclaim:
  assumes "mem pool (fst (handle_to_metadata h)) = Some blk" and "under_reclaim blk"
  shows "zblock_free hdr pool h = Inr pool"
proof -
  obtain b t s where d: "handle_to_metadata h = (b, t, s)"
    by (cases "handle_to_metadata h")
  with assms show ?thesis
    by (simp add: zblock_free_def)
qed

text \<open>
  C9. When the block a handle decodes to has \<^verbatim>\<open>under_reclaim\<close> set, \<^verbatim>\<open>zblock_free\<close>
  returns with the whole pool as it was: slot states, free counts, lists, caches, block
  counts and the pool's pages. A second free of the same handle is again a no-op.
\<close>

theorem zblock_free_under_reclaim:
  "mem pool (fst (handle_to_metadata h)) = Some blk \<and> under_reclaim blk \<longrightarrow>
     zblock_free hdr pool h = Inr pool \<and>
     (case zblock_free hdr pool h of Inl f \<Rightarrow> Inl f | Inr pool1 \<Rightarrow> zblock_free hdr pool1 h) =
       Inr pool"
  using free_under_reclaim [of pool h blk hdr] by simp

theorem zblock_free_under_reclaim_witness:
  "zblock_free 64 (example_pool\<lparr>mem := [0x10000 \<mapsto> example_block\<lparr>under_reclaim := True\<rparr>]\<rparr>)
      (metadata_to_handle 0x10000 28 1) =
     Inr (example_pool\<lparr>mem := [0x10000 \<mapsto> example_block\<lparr>under_reclaim := True\<rparr>]\<rparr>)"
proof -
  let ?p = "example_pool\<lparr>mem := [0x10000 \<mapsto> example_block\<lparr>under_reclaim := True\<rparr>]\<rparr>"
  have 1: "fst (handle_to_metadata (metadata_to_handle 0x10000 28 1)) = 0x10000"
    by (simp add: handle_to_metadata_def metadata_to_handle_def PAGE_MASK_def PAGE_SIZE_def
          PAGE_SHIFT_def SLOT_BITS_def)
  have 2: "mem ?p (fst (handle_to_metadata (metadata_to_handle 0x10000 28 1))) =
      Some (example_block\<lparr>under_reclaim := True\<rparr>)"
    by (simp add: 1)
  have 3: "under_reclaim (example_block\<lparr>under_reclaim := True\<rparr>)" by simp
  from zblock_free_under_reclaim
      [of ?p "metadata_to_handle 0x10000 28 1" "example_block\<lparr>under_reclaim := True\<rparr>" 64] 2 3
  show ?thesis by blast
qed

subsection \<open>Reclaim on an empty list\<close>

lemma is_in_cache_from_replicate_NULL:
  assumes "block \<noteq> NULL"
  shows "is_in_cache_from block (replicate n NULL) i = None"
  using assms by (induction n arbitrary: i) simp_all

text \<open>
  C4 asks that \<^verbatim>\<open>zblock_reclaim_block\<close> notice an empty list and move on to the next
  type. On a pool that has just been created every list is empty, so the call would
  return \<^verbatim>\<open>-EINVAL\<close> with the pool untouched. The code does not get there: what
  \<^verbatim>\<open>list_last_entry\<close> yields for the empty list of the last type is not null, the test
  \<^verbatim>\<open>if (!block)\<close> lets it pass, it is not in the cache, and the write to
  \<^verbatim>\<open>block->under_reclaim\<close> goes through a pointer that is the address of no block.
\<close>

theorem zblock_reclaim_block_empty_list:
  "zblock_create_pool 64 True =
     Some \<lparr>block_lists = replicate ARRAY_SIZE_block_desc empty_block_list, alloc_flag = 0,
           mem = Map.empty\<rparr> \<and>
   zblock_reclaim_block hdr evict
     \<lparr>block_lists = replicate ARRAY_SIZE_block_desc empty_block_list, alloc_flag = 0,
      mem = Map.empty\<rparr> = Inl Bad_pointer"
proof
  show "zblock_create_pool 64 True =
     Some \<lparr>block_lists = replicate ARRAY_SIZE_block_desc empty_block_list, alloc_flag = 0,
           mem = Map.empty\<rparr>"
    by (simp add: zblock_create_pool_def block_desc_64 ARRAY_SIZE_block_desc_def
          PAGE_SIZE_def PAGE_SHIFT_def)
next
  have n: "ARRAY_SIZE_block_desc = Suc 28"
    by (simp add: ARRAY_SIZE_block_desc_def)
  have c: "is_in_cache (Head_entry 28) empty_block_list = None"
    by (simp add: is_in_cache_def empty_block_list_def is_in_cache_from_replicate_NULL)
  have l: "list_last_entry (head empty_block_list) 28 = Head_entry 28"
    by (simp add: list_last_entry_def empty_block_list_def)
  show "zblock_reclaim_block hdr evict
     \<lparr>block_lists = replicate ARRAY_SIZE_block_desc empty_block_list, alloc_flag = 0,
      mem = Map.empty\<rparr> = Inl Bad_pointer"
    unfolding zblock_reclaim_block_def n
    by (subst reclaim_types.simps(2)) (simp add: c l Let_def)
qed

subsection \<open>The counting invariant\<close>

text \<open>
  ZB-I1 is kept by every function of the pool, as a part of the state of the pool between
  two calls (\<open>pool_inv\<close>). The proofs follow the functions: counting free slots in a slot
  array, the block cache, the blocks of a list, and then each function in turn.
\<close>

paragraph \<open>Counting free slots\<close>

lemma free_count_take_update_beyond:
  assumes "n \<le> s"
  shows "take n (xs[s := v]) = take n xs"
  using assms by simp

lemma free_count_update:
  assumes "s < n" and "s < length xs"
  shows "length (filter P (take n (xs[s := v]))) + (if P (xs ! s) then 1 else 0) =
         length (filter P (take n xs)) + (if P v then 1 else 0)"
  using assms
proof (induction xs arbitrary: n s)
  case Nil
  then show ?case by simp
next
  case (Cons x xs)
  from Cons.prems obtain m where n: "n = Suc m" by (cases n) auto
  show ?case
  proof (cases s)
    case 0
    with n show ?thesis by simp
  next
    case (Suc r)
    with Cons.prems n have "r < m" "r < length xs" by simp_all
    from Cons.IH [OF this, of ] Suc n show ?thesis by simp
  qed
qed

lemma free_count_le: "length (filter P (take n xs)) \<le> n"
  by (rule le_trans [OF length_filter_le]) simp

lemma free_count_replicate:
  "length (filter (\<lambda>x. x = SLOT_FREE) (take n (replicate n SLOT_FREE @ ys))) = n"
  by simp

lemma free_count_cong:
  assumes "length ys = length xs"
    and "\<forall>i < length xs. P (ys ! i) = P (xs ! i)"
  shows "length (filter P (take n ys)) = length (filter P (take n xs))"
  using assms
proof (induction xs ys arbitrary: n rule: list_induct2')
  case (4 x xs y ys)
  from "4.prems"(2) have h: "P y = P x" by auto
  from "4.prems"(2) have t: "\<forall>i < length xs. P (ys ! i) = P (xs ! i)" by auto
  from "4.prems"(1) have l: "length ys = length xs" by simp
  show ?case
  proof (cases n)
    case 0
    then show ?thesis by simp
  next
    case (Suc m)
    with "4.IH" [OF l t, of m] h show ?thesis by simp
  qed
qed simp_all

lemma slots_per_block_bounds:
  assumes "t < ARRAY_SIZE_block_desc"
  shows "0 < slots_per_block (block_desc hdr ! t) \<and> slots_per_block (block_desc hdr ! t) \<le> MAX_SLOTS"
proof -
  have "\<forall>d \<in> set (block_desc hdr). 0 < slots_per_block d \<and> slots_per_block d \<le> 32"
    by (simp add: block_desc_def)
  moreover have "block_desc hdr ! t \<in> set (block_desc hdr)"
    using assms by (simp add: length_block_desc)
  ultimately show ?thesis by (simp add: MAX_SLOTS_def SLOT_BITS_def)
qed

lemma is_in_cache_from_None:
  "is_in_cache_from x cs i = None \<Longrightarrow> x \<notin> set cs"
  by (induction cs arbitrary: i) (auto split: if_splits)

lemma is_in_cache_from_Some:
  "is_in_cache_from x cs i = Some k \<Longrightarrow> i \<le> k \<and> k < i + length cs \<and> cs ! (k - i) = x"
proof (induction cs arbitrary: i)
  case Nil
  then show ?case by simp
next
  case (Cons c cs)
  show ?case
  proof (cases "x = c")
    case True
    with Cons.prems show ?thesis by simp
  next
    case False
    with Cons.prems have "is_in_cache_from x cs (i + 1) = Some k" by simp
    from Cons.IH [OF this] show ?thesis by (auto simp: nth_Cons')
  qed
qed

lemma cache_insert_index_bound:
  assumes "cache_insert_index m cs i mf mi = Inr k"
    and "\<forall>j. mi = Some j \<longrightarrow> j < i"
  shows "k < i + length cs"
  using assms
proof (induction m cs i mf mi rule: cache_insert_index.induct)
  case (1 m i mf mi)
  then show ?case by (auto split: option.splits)
next
  case (2 m cs i mf mi)
  then show ?case by simp
next
  case (3 m t cs i mf mi)
  then show ?case by simp
next
  case (4 m a cs i mf mi)
  from "4.prems"(1) obtain b where b: "m a = Some b"
    by (auto split: option.splits)
  show ?case
  proof (cases "free_slots b = 0")
    case True
    with "4.prems" b show ?thesis by simp
  next
    case nz: False
    show ?thesis
    proof (cases "free_slots b < mf")
      case True
      with "4.prems" b nz have "cache_insert_index m cs (i + 1) (free_slots b) (Some i) = Inr k"
        by simp
      from "4.IH"(1) [OF b nz True this] show ?thesis by simp
    next
      case False
      with "4.prems" b nz have "cache_insert_index m cs (i + 1) mf mi = Inr k"
        by simp
      moreover from "4.prems"(2) have "\<forall>j. mi = Some j \<longrightarrow> j < i + 1" by auto
      ultimately show ?thesis using "4.IH"(2) [OF b nz False] by simp
    qed
  qed
qed

lemma cache_insert_block_result:
  assumes "cache_insert_block m blk l = Inr l'"
  shows "\<exists>k < length (take BLOCK_CACHE_SIZE (block_cache l)).
           l' = l\<lparr>block_cache := (block_cache l)[k := blk]\<rparr>"
proof -
  from assms obtain k where
    k: "cache_insert_index m (take BLOCK_CACHE_SIZE (block_cache l)) 0 (of_nat MAX_SLOTS) None = Inr k"
    and l': "l' = l\<lparr>block_cache := (block_cache l)[k := blk]\<rparr>"
    by (auto simp: cache_insert_block_def split: sum.splits)
  from cache_insert_index_bound [OF k] have "k < length (take BLOCK_CACHE_SIZE (block_cache l))"
    by simp
  with l' show ?thesis by blast
qed

lemma cache_find_entry_Inr:
  assumes "cache_find_entry m cs = Inr p"
  shows "p = NULL \<or> (\<exists>a b. p = Blk a \<and> Blk a \<in> set cs \<and> m a = Some b \<and> free_slots b \<noteq> 0)"
  using assms
proof (induction m cs rule: cache_find_entry.induct)
  case (4 m a cs)
  then show ?case by (auto split: option.splits if_splits)
qed auto

paragraph \<open>The block cache\<close>

lemma cache_ok_block_count [simp]: "cache_ok (l\<lparr>block_count := c\<rparr>) = cache_ok l"
  by (simp add: cache_ok_def)

lemma cache_ok_insert:
  assumes "cache_ok l" and "a \<in> set (head l)" and "Blk a \<notin> set (block_cache l)"
    and "k < BLOCK_CACHE_SIZE"
  shows "cache_ok (l\<lparr>block_cache := (block_cache l)[k := Blk a]\<rparr>)"
proof -
  let ?c = "block_cache l"
  from assms(1) have len: "length ?c = BLOCK_CACHE_SIZE"
    and mem: "\<forall>c \<in> set ?c. c = NULL \<or> (\<exists>a. c = Blk a \<and> a \<in> set (head l))"
    and dis: "\<forall>i < BLOCK_CACHE_SIZE. \<forall>j < BLOCK_CACHE_SIZE.
         i \<noteq> j \<and> ?c ! i = ?c ! j \<longrightarrow> ?c ! i = NULL"
    by (simp_all add: cache_ok_def)
  have 1: "\<forall>c \<in> set (?c[k := Blk a]). c = NULL \<or> (\<exists>a. c = Blk a \<and> a \<in> set (head l))"
  proof
    fix c assume "c \<in> set (?c[k := Blk a])"
    then have "c = Blk a \<or> c \<in> set ?c"
      using set_update_subset_insert [of ?c k "Blk a"] by auto
    with mem assms(2) show "c = NULL \<or> (\<exists>a. c = Blk a \<and> a \<in> set (head l))" by auto
  qed
  have 2: "\<forall>i < BLOCK_CACHE_SIZE. \<forall>j < BLOCK_CACHE_SIZE.
         i \<noteq> j \<and> ?c[k := Blk a] ! i = ?c[k := Blk a] ! j \<longrightarrow> ?c[k := Blk a] ! i = NULL"
  proof (intro allI impI)
    fix i j
    assume i: "i < BLOCK_CACHE_SIZE" and j: "j < BLOCK_CACHE_SIZE"
      and e: "i \<noteq> j \<and> ?c[k := Blk a] ! i = ?c[k := Blk a] ! j"
    have nin: "?c ! n \<noteq> Blk a" if "n < BLOCK_CACHE_SIZE" for n
      using assms(3) that len by (metis nth_mem)
    show "?c[k := Blk a] ! i = NULL"
    proof (cases "i = k")
      case True
      with e have "j \<noteq> k" by simp
      with e True i j len have "?c ! j = Blk a" by simp
      with nin [OF j] show ?thesis by simp
    next
      case False
      show ?thesis
      proof (cases "j = k")
        case True
        with e False i j len have "?c ! i = Blk a" by simp
        with nin [OF i] show ?thesis by simp
      next
        case jk: False
        with False e have "i \<noteq> j \<and> ?c ! i = ?c ! j" by simp
        with dis i j have "?c ! i = NULL" by blast
        with False show ?thesis by simp
      qed
    qed
  qed
  from len 1 2 show ?thesis by (simp add: cache_ok_def)
qed

lemma cache_ok_head_cons:
  assumes "cache_ok l"
  shows "cache_ok (l\<lparr>head := a # head l\<rparr>)"
  using assms by (auto simp: cache_ok_def)

lemma cache_ok_remove:
  assumes "cache_ok l" and "Blk a \<notin> set (block_cache l)"
  shows "cache_ok (l\<lparr>head := remove1 a (head l)\<rparr>)"
proof -
  have "\<forall>c \<in> set (block_cache l). c = NULL \<or> (\<exists>x. c = Blk x \<and> x \<in> set (remove1 a (head l)))"
  proof
    fix c assume c: "c \<in> set (block_cache l)"
    with assms(1) have "c = NULL \<or> (\<exists>x. c = Blk x \<and> x \<in> set (head l))"
      by (simp add: cache_ok_def)
    then show "c = NULL \<or> (\<exists>x. c = Blk x \<and> x \<in> set (remove1 a (head l)))"
    proof
      assume "c = NULL" then show ?thesis by simp
    next
      assume "\<exists>x. c = Blk x \<and> x \<in> set (head l)"
      then obtain x where x: "c = Blk x" "x \<in> set (head l)" by blast
      with c assms(2) have "x \<noteq> a" by auto
      with x show ?thesis by (auto simp: in_set_remove1)
    qed
  qed
  with assms(1) show ?thesis by (simp add: cache_ok_def)
qed

lemma cache_ok_clear:
  assumes "cache_ok l" and "is_in_cache (Blk a) l = Some k"
  shows "cache_ok (l\<lparr>block_cache := (block_cache l)[k := NULL]\<rparr>) \<and>
         Blk a \<notin> set ((block_cache l)[k := NULL])"
proof -
  let ?c = "block_cache l"
  from assms(1) have len: "length ?c = BLOCK_CACHE_SIZE"
    and mem: "\<forall>c \<in> set ?c. c = NULL \<or> (\<exists>a. c = Blk a \<and> a \<in> set (head l))"
    and dis: "\<forall>i < BLOCK_CACHE_SIZE. \<forall>j < BLOCK_CACHE_SIZE.
         i \<noteq> j \<and> ?c ! i = ?c ! j \<longrightarrow> ?c ! i = NULL"
    by (simp_all add: cache_ok_def)
  from assms(2) len have k: "k < BLOCK_CACHE_SIZE" "?c ! k = Blk a"
    using is_in_cache_from_Some [of "Blk a" "take BLOCK_CACHE_SIZE ?c" 0 k]
    by (simp_all add: is_in_cache_def)
  have 1: "\<forall>c \<in> set (?c[k := NULL]). c = NULL \<or> (\<exists>a. c = Blk a \<and> a \<in> set (head l))"
  proof
    fix c assume "c \<in> set (?c[k := NULL])"
    then have "c = NULL \<or> c \<in> set ?c"
      using set_update_subset_insert [of ?c k NULL] by auto
    with mem show "c = NULL \<or> (\<exists>a. c = Blk a \<and> a \<in> set (head l))" by auto
  qed
  have 2: "\<forall>i < BLOCK_CACHE_SIZE. \<forall>j < BLOCK_CACHE_SIZE.
         i \<noteq> j \<and> ?c[k := NULL] ! i = ?c[k := NULL] ! j \<longrightarrow> ?c[k := NULL] ! i = NULL"
  proof (intro allI impI)
    fix i j
    assume i: "i < BLOCK_CACHE_SIZE" and j: "j < BLOCK_CACHE_SIZE"
      and e: "i \<noteq> j \<and> ?c[k := NULL] ! i = ?c[k := NULL] ! j"
    show "?c[k := NULL] ! i = NULL"
    proof (cases "i = k")
      case True
      with i len show ?thesis by simp
    next
      case False
      show ?thesis
      proof (cases "j = k")
        case True
        with e False i j len show ?thesis by simp
      next
        case jk: False
        with False e have "i \<noteq> j \<and> ?c ! i = ?c ! j" by simp
        with dis i j have "?c ! i = NULL" by blast
        with False show ?thesis by simp
      qed
    qed
  qed
  have 3: "Blk a \<notin> set (?c[k := NULL])"
  proof
    assume "Blk a \<in> set (?c[k := NULL])"
    then obtain n where n: "n < BLOCK_CACHE_SIZE" "?c[k := NULL] ! n = Blk a"
      using len by (auto simp: in_set_conv_nth)
    with k len have nk: "n \<noteq> k" by auto
    with n have "?c ! n = Blk a" by simp
    with k nk n dis have "?c ! n = NULL" by (metis)
    with \<open>?c ! n = Blk a\<close> show False by simp
  qed
  from len 1 2 3 show ?thesis by (simp add: cache_ok_def)
qed

lemma is_in_cache_None:
  assumes "cache_ok l" and "is_in_cache blk l = None"
  shows "blk \<notin> set (block_cache l)"
  using assms is_in_cache_from_None [of blk "take BLOCK_CACHE_SIZE (block_cache l)" 0]
  by (simp add: is_in_cache_def cache_ok_def)

lemma cache_insert_block_ok:
  assumes "cache_ok l" and "a \<in> set (head l)" and "Blk a \<notin> set (block_cache l)"
    and "cache_insert_block m (Blk a) l = Inr l'"
  shows "cache_ok l' \<and> head l' = head l \<and> block_count l' = block_count l"
proof -
  from cache_insert_block_result [OF assms(4)] obtain k where
    k: "k < length (take BLOCK_CACHE_SIZE (block_cache l))"
    and l': "l' = l\<lparr>block_cache := (block_cache l)[k := Blk a]\<rparr>" by blast
  from k have "k < BLOCK_CACHE_SIZE" by simp
  from cache_ok_insert [OF assms(1-3) this] l' show ?thesis by simp
qed

paragraph \<open>Blocks, handles, map and unmap\<close>

lemma ZB_I1_under_reclaim [simp]: "ZB_I1 n (b\<lparr>under_reclaim := x\<rparr>) = ZB_I1 n b"
  by (simp add: ZB_I1_def)

lemma ZB_I1_keep:
  assumes "ZB_I1 n b" and "s < length (slot_info b)" and "slot_info b ! s \<noteq> SLOT_FREE"
    and "v \<noteq> SLOT_FREE"
  shows "ZB_I1 n (b\<lparr>slot_info := (slot_info b)[s := v]\<rparr>)"
proof (cases "s < n")
  case True
  from free_count_update [OF True assms(2), of "\<lambda>x. x = SLOT_FREE" v] assms
  show ?thesis by (simp add: ZB_I1_def)
next
  case False
  with assms(1) show ?thesis by (simp add: ZB_I1_def)
qed

lemma ZB_I1_occupy:
  assumes "ZB_I1 n b" and "s < n" and "s < length (slot_info b)"
    and "slot_info b ! s = SLOT_FREE"
  shows "ZB_I1 n (b\<lparr>free_slots := free_slots b - 1,
                     slot_info := (slot_info b)[s := SLOT_OCCUPIED]\<rparr>)"
proof -
  have c: "length (filter (\<lambda>x. x = SLOT_FREE) (take n ((slot_info b)[s := SLOT_OCCUPIED]))) + 1 =
      length (filter (\<lambda>x. x = SLOT_FREE) (take n (slot_info b)))"
    using free_count_update [OF assms(2,3), of "\<lambda>x. x = SLOT_FREE" SLOT_OCCUPIED] assms(4)
    by (simp add: SLOT_OCCUPIED_def SLOT_FREE_def)
  then have "length (filter (\<lambda>x. x = SLOT_FREE) (take n (slot_info b))) \<noteq> 0" by arith
  with assms(1) have "unat (free_slots b) \<noteq> 0" unfolding ZB_I1_def by simp
  then have "free_slots b \<noteq> 0" by (auto simp: unat_eq_0)
  then have "unat (free_slots b - 1) = unat (free_slots b) - 1" by (simp add: unat_minus_one)
  with c assms(1) show ?thesis by (simp add: ZB_I1_def)
qed

lemma ZB_I1_release:
  assumes "ZB_I1 n b" and "s < n" and "s < length (slot_info b)"
    and "slot_info b ! s \<noteq> SLOT_FREE" and "n \<le> MAX_SLOTS"
  shows "ZB_I1 n (b\<lparr>free_slots := free_slots b + 1,
                     slot_info := (slot_info b)[s := SLOT_FREE]\<rparr>) \<and>
         unat (free_slots b + 1) = unat (free_slots b) + 1 \<and> unat (free_slots b) < n"
proof -
  have c: "length (filter (\<lambda>x. x = SLOT_FREE) (take n ((slot_info b)[s := SLOT_FREE]))) =
      length (filter (\<lambda>x. x = SLOT_FREE) (take n (slot_info b))) + 1"
    using free_count_update [OF assms(2,3), of "\<lambda>x. x = SLOT_FREE" SLOT_FREE] assms(4)
    by simp
  have "length (filter (\<lambda>x. x = SLOT_FREE) (take n ((slot_info b)[s := SLOT_FREE]))) \<le> n"
    by (rule free_count_le)
  with c assms(1) have lt: "unat (free_slots b) < n" by (simp add: ZB_I1_def)
  with assms(5) have "unat (free_slots b) + unat (1 :: 32 word) < 2 ^ LENGTH(32)"
    by (simp add: MAX_SLOTS_def SLOT_BITS_def)
  then have "unat (free_slots b + 1) = unat (free_slots b) + unat (1 :: 32 word)"
    by (simp only: unat_add_lem [THEN iffD1])
  then have u: "unat (free_slots b + 1) = unat (free_slots b) + 1" by simp
  with c assms(1) lt show ?thesis by (simp add: ZB_I1_def)
qed

lemma ZB_I1_same_free_slots:
  assumes "ZB_I1 n b" and "same_free_slots b b1"
  shows "ZB_I1 n b1"
proof -
  from assms(2) have "length (slot_info b1) = length (slot_info b)"
    and "\<forall>i < length (slot_info b). (slot_info b1 ! i = SLOT_FREE) = (slot_info b ! i = SLOT_FREE)"
    and f: "free_slots b1 = free_slots b"
    by (simp_all add: same_free_slots_def)
  from free_count_cong [OF this(1,2), of n] assms(1) f show ?thesis
    by (simp add: ZB_I1_def)
qed

lemma listed_block:
  assumes "blocks_ok hdr pool" and "t < ARRAY_SIZE_block_desc"
    and "a \<in> set (head (block_lists pool ! t))"
  obtains b where "mem pool a = Some b" and "length (slot_info b) = MAX_SLOTS"
    and "ZB_I1 (slots_per_block (block_desc hdr ! t)) b"
  using assms unfolding blocks_ok_def by blast

lemma listed_once:
  assumes "lists_ok pool" and "t < ARRAY_SIZE_block_desc" and "t' < ARRAY_SIZE_block_desc"
    and "a \<in> set (head (block_lists pool ! t))" and "a \<in> set (head (block_lists pool ! t'))"
  shows "t' = t"
proof (rule ccontr)
  assume "t' \<noteq> t"
  with assms(1-3) have "set (head (block_lists pool ! t)) \<inter> set (head (block_lists pool ! t')) = {}"
    by (simp add: lists_ok_def)
  with assms(4,5) show False by blast
qed

lemma blocks_ok_update:
  assumes "lists_ok pool" and "blocks_ok hdr pool" and "t < ARRAY_SIZE_block_desc"
    and "a \<in> set (head (block_lists pool ! t))"
    and "length (slot_info b') = MAX_SLOTS"
    and "ZB_I1 (slots_per_block (block_desc hdr ! t)) b'"
    and "\<forall>t' < ARRAY_SIZE_block_desc.
           set (head (block_lists pool' ! t')) \<subseteq> set (head (block_lists pool ! t'))"
    and "mem pool' = (mem pool)(a \<mapsto> b')"
  shows "blocks_ok hdr pool'"
  unfolding blocks_ok_def
proof (intro allI impI ballI)
  fix t' x
  assume t': "t' < ARRAY_SIZE_block_desc" and "x \<in> set (head (block_lists pool' ! t'))"
  with assms(7) have x: "x \<in> set (head (block_lists pool ! t'))" by blast
  show "\<exists>b. mem pool' x = Some b \<and> length (slot_info b) = MAX_SLOTS \<and>
      ZB_I1 (slots_per_block (block_desc hdr ! t')) b"
  proof (cases "x = a")
    case True
    with x assms(1,3,4) t' have "t' = t" using listed_once by blast
    with True assms(5,6,8) show ?thesis by simp
  next
    case False
    from listed_block [OF assms(2) t' x] obtain b where "mem pool x = Some b"
      "length (slot_info b) = MAX_SLOTS" "ZB_I1 (slots_per_block (block_desc hdr ! t')) b" .
    with False assms(8) show ?thesis by simp
  qed
qed

lemma pool_inv_mem_update:
  assumes "pool_inv hdr pool" and "t < ARRAY_SIZE_block_desc"
    and "a \<in> set (head (block_lists pool ! t))"
    and "length (slot_info b') = MAX_SLOTS"
    and "ZB_I1 (slots_per_block (block_desc hdr ! t)) b'"
  shows "pool_inv hdr (pool\<lparr>mem := (mem pool)(a \<mapsto> b')\<rparr>)"
proof -
  from assms(1) have l: "lists_ok pool" and b: "blocks_ok hdr pool"
    by (simp_all add: pool_inv_def)
  have "blocks_ok hdr (pool\<lparr>mem := (mem pool)(a \<mapsto> b')\<rparr>)"
    by (rule blocks_ok_update [OF l b assms(2-5)]) simp_all
  with assms(1) show ?thesis by (simp add: pool_inv_def lists_ok_def)
qed

lemma valid_handleD:
  assumes "valid_handle hdr pool h" and "handle_to_metadata h = (a, bt, s)"
  shows "unat bt < ARRAY_SIZE_block_desc" and "a \<in> set (head (block_lists pool ! unat bt))"
    and "unat s < slots_per_block (block_desc hdr ! unat bt)"
    and "\<exists>b. mem pool a = Some b \<and> slot_info b ! unat s \<noteq> SLOT_FREE"
  using assms by (simp_all add: valid_handle_def)

lemma zblock_map_inv:
  assumes "pool_inv hdr pool" and "valid_handle hdr pool h"
    and "zblock_map hdr pool h = Inr (pool', x)"
  shows "pool_inv hdr pool'"
proof -
  obtain a bt s where d: "handle_to_metadata h = (a, bt, s)"
    by (cases "handle_to_metadata h")
  note v = valid_handleD [OF assms(2) d]
  from assms(1) have bo: "blocks_ok hdr pool" by (simp add: pool_inv_def)
  from listed_block [OF bo v(1,2)] obtain b where b: "mem pool a = Some b"
    "length (slot_info b) = MAX_SLOTS" "ZB_I1 (slots_per_block (block_desc hdr ! unat bt)) b" .
  from v(4) b(1) have nf: "slot_info b ! unat s \<noteq> SLOT_FREE" by simp
  from v(3) slots_per_block_bounds [OF v(1), of hdr] b(2) have s: "unat s < length (slot_info b)"
    by simp
  from assms(3) d b(1) v(1) have p: "pool' = pool\<lparr>mem := (mem pool)
      (a \<mapsto> b\<lparr>slot_info := (slot_info b)[unat s := SLOT_MAPPED]\<rparr>)\<rparr>"
    by (simp add: zblock_map_def)
  have "ZB_I1 (slots_per_block (block_desc hdr ! unat bt))
      (b\<lparr>slot_info := (slot_info b)[unat s := SLOT_MAPPED]\<rparr>)"
    by (rule ZB_I1_keep [OF b(3) s nf]) (simp add: SLOT_MAPPED_def SLOT_FREE_def)
  from pool_inv_mem_update [OF assms(1) v(1,2) _ this] b(2) p show ?thesis by simp
qed

lemma zblock_unmap_inv:
  assumes "pool_inv hdr pool" and "valid_handle hdr pool h"
    and "zblock_unmap pool h = Inr pool'"
  shows "pool_inv hdr pool'"
proof -
  obtain a bt s where d: "handle_to_metadata h = (a, bt, s)"
    by (cases "handle_to_metadata h")
  note v = valid_handleD [OF assms(2) d]
  from assms(1) have bo: "blocks_ok hdr pool" by (simp add: pool_inv_def)
  from listed_block [OF bo v(1,2)] obtain b where b: "mem pool a = Some b"
    "length (slot_info b) = MAX_SLOTS" "ZB_I1 (slots_per_block (block_desc hdr ! unat bt)) b" .
  from v(4) b(1) have nf: "slot_info b ! unat s \<noteq> SLOT_FREE" by simp
  from v(3) slots_per_block_bounds [OF v(1), of hdr] b(2) have s: "unat s < length (slot_info b)"
    by simp
  from assms(3) d b(1) have p: "pool' = pool\<lparr>mem := (mem pool)
      (a \<mapsto> b\<lparr>slot_info := (slot_info b)[unat s := SLOT_UNMAPPED]\<rparr>)\<rparr>"
    by (simp add: zblock_unmap_def)
  have "ZB_I1 (slots_per_block (block_desc hdr ! unat bt))
      (b\<lparr>slot_info := (slot_info b)[unat s := SLOT_UNMAPPED]\<rparr>)"
    by (rule ZB_I1_keep [OF b(3) s nf]) (simp add: SLOT_UNMAPPED_def SLOT_FREE_def)
  from pool_inv_mem_update [OF assms(1) v(1,2) _ this] b(2) p show ?thesis by simp
qed

paragraph \<open>Free\<close>

lemma pool_invI:
  assumes "length (block_lists pool) = ARRAY_SIZE_block_desc" and "alloc_flag pool = 0"
    and "lists_ok pool" and "\<And>t. t < ARRAY_SIZE_block_desc \<Longrightarrow> cache_ok (block_lists pool ! t)"
    and "blocks_ok hdr pool"
  shows "pool_inv hdr pool"
  using assms by (simp add: pool_inv_def)

lemma pool_invD:
  assumes "pool_inv hdr pool"
  shows "length (block_lists pool) = ARRAY_SIZE_block_desc" and "alloc_flag pool = 0"
    and "lists_ok pool" and "\<And>t. t < ARRAY_SIZE_block_desc \<Longrightarrow> cache_ok (block_lists pool ! t)"
    and "blocks_ok hdr pool"
  using assms by (simp_all add: pool_inv_def)

lemma list_del_nth:
  assumes "t < length bls"
  shows "list_del a bls ! t = (bls ! t)\<lparr>head := remove1 a (head (bls ! t))\<rparr>"
  using assms by (simp add: list_del_def)

lemma length_list_del [simp]: "length (list_del a bls) = length bls"
  by (simp add: list_del_def)

lemma lists_ok_remove:
  assumes "lists_ok pool"
    and "\<forall>t < ARRAY_SIZE_block_desc.
           head (block_lists pool' ! t) = remove1 a (head (block_lists pool ! t))"
  shows "lists_ok pool'"
  unfolding lists_ok_def
proof (intro allI impI conjI)
  fix t assume t: "t < ARRAY_SIZE_block_desc"
  with assms(1) have "distinct (head (block_lists pool ! t))" by (simp add: lists_ok_def)
  with assms(2) t show "distinct (head (block_lists pool' ! t))" by simp
  fix t' assume t': "t' < ARRAY_SIZE_block_desc" and ne: "t' \<noteq> t"
  with assms(1) t have "set (head (block_lists pool ! t)) \<inter> set (head (block_lists pool ! t')) = {}"
    by (simp add: lists_ok_def)
  moreover have "set (remove1 a (head (block_lists pool ! t))) \<subseteq> set (head (block_lists pool ! t))"
    by (rule set_remove1_subset)
  moreover have "set (remove1 a (head (block_lists pool ! t'))) \<subseteq> set (head (block_lists pool ! t'))"
    by (rule set_remove1_subset)
  ultimately show "set (head (block_lists pool' ! t)) \<inter> set (head (block_lists pool' ! t')) = {}"
    using assms(2) t t' by auto
qed

lemma blocks_ok_delete:
  assumes "lists_ok pool" and "blocks_ok hdr pool" and "t < ARRAY_SIZE_block_desc"
    and "a \<in> set (head (block_lists pool ! t))"
    and "\<forall>t' < ARRAY_SIZE_block_desc.
           head (block_lists pool' ! t') = remove1 a (head (block_lists pool ! t'))"
    and "\<forall>x. x \<noteq> a \<longrightarrow> mem pool' x = mem pool x"
  shows "blocks_ok hdr pool'"
  unfolding blocks_ok_def
proof (intro allI impI ballI)
  fix t' x
  assume t': "t' < ARRAY_SIZE_block_desc" and "x \<in> set (head (block_lists pool' ! t'))"
  with assms(5) have xr: "x \<in> set (remove1 a (head (block_lists pool ! t')))" by simp
  then have x: "x \<in> set (head (block_lists pool ! t'))"
    using set_remove1_subset by fast
  have "x \<noteq> a"
  proof
    assume e: "x = a"
    with x assms(1,3,4) t' have "t' = t" using listed_once by blast
    moreover from assms(1,3) have "distinct (head (block_lists pool ! t))"
      by (simp add: lists_ok_def)
    ultimately show False using xr e by simp
  qed
  moreover from listed_block [OF assms(2) t' x] obtain b where "mem pool x = Some b"
    "length (slot_info b) = MAX_SLOTS" "ZB_I1 (slots_per_block (block_desc hdr ! t')) b" .
  ultimately show "\<exists>b. mem pool' x = Some b \<and> length (slot_info b) = MAX_SLOTS \<and>
      ZB_I1 (slots_per_block (block_desc hdr ! t')) b"
    using assms(6) by simp
qed

lemma cache_ok_other_list:
  assumes "lists_ok pool" and "t < ARRAY_SIZE_block_desc" and "t' < ARRAY_SIZE_block_desc"
    and "t' \<noteq> t" and "a \<in> set (head (block_lists pool ! t))"
    and "cache_ok (block_lists pool ! t')"
  shows "cache_ok ((block_lists pool ! t')\<lparr>head := remove1 a (head (block_lists pool ! t'))\<rparr>)"
proof -
  from assms(1-5) have "a \<notin> set (head (block_lists pool ! t'))"
    using listed_once by blast
  then have "remove1 a (head (block_lists pool ! t')) = head (block_lists pool ! t')"
    by (rule remove1_idem)
  with assms(6) show ?thesis by simp
qed

lemma cache_ok_fields:
  assumes "cache_ok l" and "block_cache l' = block_cache l" and "head l' = head l"
  shows "cache_ok l'"
  using assms by (simp add: cache_ok_def)

lemma pool_inv_delete:
  assumes inv: "pool_inv hdr pool" and t: "t < ARRAY_SIZE_block_desc"
    and a: "a \<in> set (head (block_lists pool ! t))"
    and c: "cache_ok l" "head l = remove1 a (head (block_lists pool ! t))"
    and m: "\<forall>x. x \<noteq> a \<longrightarrow> m x = mem pool x"
  shows "pool_inv hdr (pool\<lparr>block_lists := (list_del a (block_lists pool))[t := l], mem := m\<rparr>)"
    (is "pool_inv hdr ?p")
proof (rule pool_invI)
  note d = pool_invD [OF inv]
  show "length (block_lists ?p) = ARRAY_SIZE_block_desc" using d(1) by simp
  show "alloc_flag ?p = 0" using d(2) by simp
  have heads: "\<forall>t' < ARRAY_SIZE_block_desc.
      head (block_lists ?p ! t') = remove1 a (head (block_lists pool ! t'))"
    using d(1) c(2) t by (auto simp: nth_list_update list_del_nth)
  show "lists_ok ?p" by (rule lists_ok_remove [OF d(3) heads])
  show "blocks_ok hdr ?p"
    by (rule blocks_ok_delete [OF d(3) d(5) t a heads]) (simp add: m)
  fix t' assume t': "t' < ARRAY_SIZE_block_desc"
  show "cache_ok (block_lists ?p ! t')"
  proof (cases "t' = t")
    case True
    with d(1) t c(1) show ?thesis by simp
  next
    case False
    from cache_ok_other_list [OF d(3) t t' False a d(4) [OF t']] False d(1) t'
    show ?thesis by (simp add: list_del_nth)
  qed
qed

lemma pool_inv_recache:
  assumes inv: "pool_inv hdr pool" and t: "t < ARRAY_SIZE_block_desc"
    and a: "a \<in> set (head (block_lists pool ! t))"
    and c: "cache_ok l" "head l = head (block_lists pool ! t)"
    and b: "length (slot_info b') = MAX_SLOTS" "ZB_I1 (slots_per_block (block_desc hdr ! t)) b'"
  shows "pool_inv hdr
     (pool\<lparr>block_lists := (block_lists pool)[t := l], mem := (mem pool)(a \<mapsto> b')\<rparr>)"
    (is "pool_inv hdr ?p")
proof (rule pool_invI)
  note d = pool_invD [OF inv]
  show "length (block_lists ?p) = ARRAY_SIZE_block_desc" using d(1) by simp
  show "alloc_flag ?p = 0" using d(2) by simp
  have heads: "\<forall>t' < ARRAY_SIZE_block_desc.
      head (block_lists ?p ! t') = head (block_lists pool ! t')"
    using d(1) c(2) t by (auto simp: nth_list_update)
  with d(3) show "lists_ok ?p" by (simp add: lists_ok_def)
  show "blocks_ok hdr ?p"
    by (rule blocks_ok_update [OF d(3) d(5) t a b]) (use heads in simp_all)
  fix t' assume t': "t' < ARRAY_SIZE_block_desc"
  with d(1) d(4) [OF t'] c(1) t show "cache_ok (block_lists ?p ! t')"
    by (simp add: nth_list_update)
qed

lemma zblock_free_inv:
  assumes inv: "pool_inv hdr pool" and vh: "valid_handle hdr pool h"
    and fr: "zblock_free hdr pool h = Inr pool'"
  shows "pool_inv hdr pool'"
proof -
  obtain a bt s where dm: "handle_to_metadata h = (a, bt, s)"
    by (cases "handle_to_metadata h")
  note v = valid_handleD [OF vh dm]
  note d = pool_invD [OF inv]
  let ?t = "unat bt"
  let ?n = "slots_per_block (block_desc hdr ! ?t)"
  let ?l = "block_lists pool ! ?t"
  from listed_block [OF d(5) v(1,2)] obtain b where b: "mem pool a = Some b"
    "length (slot_info b) = MAX_SLOTS" "ZB_I1 ?n b" .
  from v(4) b(1) have nf: "slot_info b ! unat s \<noteq> SLOT_FREE" by simp
  note nb = slots_per_block_bounds [OF v(1), of hdr]
  from v(3) nb b(2) have s: "unat s < length (slot_info b)" by simp
  from nb have nle: "?n \<le> MAX_SLOTS" by simp
  note rel = ZB_I1_release [OF b(3) v(3) s nf nle]
  show ?thesis
  proof (cases "under_reclaim b")
    case True
    with fr dm b(1) have "pool' = pool" by (simp add: zblock_free_def)
    with inv show ?thesis by simp
  next
    case ur: False
    let ?b1 = "b\<lparr>free_slots := free_slots b + 1\<rparr>"
    show ?thesis
    proof (cases "unat (free_slots b + 1) = ?n")
      case True
      let ?i = "is_in_cache (Blk a) ?l"
      let ?c = "case ?i of None \<Rightarrow> ?l | Some k \<Rightarrow> ?l\<lparr>block_cache := (block_cache ?l)[k := NULL]\<rparr>"
      have c: "cache_ok ?c \<and> Blk a \<notin> set (block_cache ?c) \<and> head ?c = head ?l"
      proof (cases ?i)
        case None
        with is_in_cache_None [OF d(4) [OF v(1)] None] d(4) [OF v(1)] show ?thesis by simp
      next
        case (Some k)
        with cache_ok_clear [OF d(4) [OF v(1)] Some] show ?thesis by simp
      qed
      define l3 where "l3 =
        (let list1 = list_del a (block_lists pool) ! ?t;
             list2 = list1\<lparr>block_count := block_count list1 - 1\<rparr>
         in case ?i of
              None \<Rightarrow> list2
            | Some k \<Rightarrow> list2\<lparr>block_cache := (block_cache list2)[k := NULL]\<rparr>)"
      from fr dm b(1) ur v(1) True have "pool' =
          pool\<lparr>block_lists := (list_del a (block_lists pool))[?t := l3],
               mem := (mem pool)(a := None)\<rparr>"
        by (simp add: zblock_free_def Let_def l3_def)
      moreover have f: "block_cache l3 = block_cache ?c \<and> head l3 = remove1 a (head ?l)"
        using d(1) v(1) by (cases ?i) (simp_all add: l3_def Let_def list_del_nth)
      have "cache_ok l3"
        by (rule cache_ok_fields [OF cache_ok_remove [of ?c a]]) (use c f in simp_all)
      with f have "pool_inv hdr (pool\<lparr>block_lists := (list_del a (block_lists pool))[?t := l3],
               mem := (mem pool)(a := None)\<rparr>)"
        by (intro pool_inv_delete [OF inv v(1,2)]) simp_all
      ultimately show ?thesis by simp
    next
      case False
      let ?m1 = "(mem pool)(a \<mapsto> ?b1)"
      let ?r = "if is_in_cache (Blk a) ?l = None then cache_insert_block ?m1 (Blk a) ?l else Inr ?l"
      from fr dm b(1) ur v(1) False obtain l1 where l1: "?r = Inr l1"
        and p: "pool' = pool\<lparr>block_lists := (block_lists pool)[?t := l1],
            mem := ?m1(a \<mapsto> ?b1\<lparr>slot_info := (slot_info ?b1)[unat s := SLOT_FREE]\<rparr>)\<rparr>"
        by (auto simp: zblock_free_def Let_def split: sum.splits)
      have c: "cache_ok l1 \<and> head l1 = head ?l"
      proof (cases "is_in_cache (Blk a) ?l = None")
        case True
        with l1 have "cache_insert_block ?m1 (Blk a) ?l = Inr l1" by simp
        from cache_insert_block_ok [OF d(4) [OF v(1)] v(2) is_in_cache_None [OF d(4) [OF v(1)] True] this]
        show ?thesis by simp
      next
        case False
        with l1 d(4) [OF v(1)] show ?thesis by simp
      qed
      have "pool_inv hdr (pool\<lparr>block_lists := (block_lists pool)[?t := l1],
            mem := (mem pool)(a \<mapsto> b\<lparr>free_slots := free_slots b + 1,
                                        slot_info := (slot_info b)[unat s := SLOT_FREE]\<rparr>)\<rparr>)"
        by (rule pool_inv_recache [OF inv v(1,2)]) (use c rel b(2) in simp_all)
      with p show ?thesis by simp
    qed
  qed
qed

paragraph \<open>Allocation\<close>

lemma pool_inv_alloc_flag:
  "pool_inv hdr (pool\<lparr>alloc_flag := f\<rparr>) \<Longrightarrow> pool_inv hdr (pool\<lparr>alloc_flag := 0\<rparr>)"
  by (simp add: pool_inv_def lists_ok_def blocks_ok_def)

lemma pool_inv_alloc_flag_same:
  "pool_inv hdr pool \<Longrightarrow> pool_inv hdr (pool\<lparr>alloc_flag := 0\<rparr>)"
  by (simp add: pool_inv_def lists_ok_def blocks_ok_def)

lemma unlisted:
  assumes "blocks_ok hdr pool" and "mem pool a = None" and "t < ARRAY_SIZE_block_desc"
  shows "a \<notin> set (head (block_lists pool ! t))"
proof
  assume "a \<in> set (head (block_lists pool ! t))"
  from listed_block [OF assms(1,3) this] assms(2) show False by auto
qed

lemma new_block_ok:
  assumes "length (slot_info raw) = MAX_SLOTS" and "0 < n" and "n \<le> MAX_SLOTS"
  shows "length (slot_info (raw\<lparr>slot_info := replicate n SLOT_FREE @ drop n (slot_info raw),
                               free_slots := of_nat n, under_reclaim := False\<rparr>)) = MAX_SLOTS"
    and "ZB_I1 n (raw\<lparr>slot_info := replicate n SLOT_FREE @ drop n (slot_info raw),
                     free_slots := of_nat n, under_reclaim := False\<rparr>)"
    and "(of_nat n :: 32 word) \<noteq> 0"
proof -
  from assms show "length (slot_info (raw\<lparr>slot_info := replicate n SLOT_FREE @ drop n (slot_info raw),
                               free_slots := of_nat n, under_reclaim := False\<rparr>)) = MAX_SLOTS"
    by simp
  from assms(3) have "n < 2 ^ LENGTH(32)" by (simp add: MAX_SLOTS_def SLOT_BITS_def)
  then have u: "unat (of_nat n :: 32 word) = n" by (simp add: unat_of_nat)
  then show "ZB_I1 n (raw\<lparr>slot_info := replicate n SLOT_FREE @ drop n (slot_info raw),
                     free_slots := of_nat n, under_reclaim := False\<rparr>)"
    by (simp add: ZB_I1_def)
  from u assms(2) show "(of_nat n :: 32 word) \<noteq> 0" by (auto simp: unat_eq_0 [symmetric])
qed

lemma pool_inv_new_block:
  assumes inv: "pool_inv hdr pool" and t: "t < ARRAY_SIZE_block_desc"
    and fresh: "mem pool a = None"
    and c: "cache_ok l" "head l = a # head (block_lists pool ! t)"
    and b: "length (slot_info b') = MAX_SLOTS" "ZB_I1 (slots_per_block (block_desc hdr ! t)) b'"
  shows "pool_inv hdr (pool\<lparr>block_lists := (block_lists pool)[t := l],
                            mem := (mem pool)(a \<mapsto> b')\<rparr>)"
    (is "pool_inv hdr ?p")
proof (rule pool_invI)
  note d = pool_invD [OF inv]
  show "length (block_lists ?p) = ARRAY_SIZE_block_desc" using d(1) by simp
  show "alloc_flag ?p = 0" using d(2) by simp
  note ul = unlisted [OF d(5) fresh]
  have heads: "head (block_lists ?p ! t') =
      (if t' = t then a # head (block_lists pool ! t) else head (block_lists pool ! t'))"
    if "t' < ARRAY_SIZE_block_desc" for t'
    using d(1) c(2) t that by (auto simp: nth_list_update)
  show "lists_ok ?p"
    unfolding lists_ok_def
  proof (intro allI impI conjI)
    fix u assume u: "u < ARRAY_SIZE_block_desc"
    from d(3) u have "distinct (head (block_lists pool ! u))" by (simp add: lists_ok_def)
    with heads [OF u] ul [OF u] show "distinct (head (block_lists ?p ! u))" by auto
    fix u' assume u': "u' < ARRAY_SIZE_block_desc" and ne: "u' \<noteq> u"
    from d(3) u u' ne have
      "set (head (block_lists pool ! u)) \<inter> set (head (block_lists pool ! u')) = {}"
      by (simp add: lists_ok_def)
    with heads [OF u] heads [OF u'] ul [OF u] ul [OF u'] ne
    show "set (head (block_lists ?p ! u)) \<inter> set (head (block_lists ?p ! u')) = {}"
      by auto
  qed
  show "blocks_ok hdr ?p"
    unfolding blocks_ok_def
  proof (intro allI impI ballI)
    fix u x
    assume u: "u < ARRAY_SIZE_block_desc" and x: "x \<in> set (head (block_lists ?p ! u))"
    show "\<exists>b. mem ?p x = Some b \<and> length (slot_info b) = MAX_SLOTS \<and>
        ZB_I1 (slots_per_block (block_desc hdr ! u)) b"
    proof (cases "x = a")
      case True
      with x heads [OF u] ul [OF u] have "u = t" by (auto split: if_splits)
      with True b show ?thesis by simp
    next
      case False
      with x heads [OF u] have "x \<in> set (head (block_lists pool ! u))"
        by (auto split: if_splits)
      from listed_block [OF d(5) u this] obtain b0 where "mem pool x = Some b0"
        "length (slot_info b0) = MAX_SLOTS" "ZB_I1 (slots_per_block (block_desc hdr ! u)) b0" .
      with False show ?thesis by simp
    qed
  qed
  fix t' assume t': "t' < ARRAY_SIZE_block_desc"
  with d(1) d(4) [OF t'] c(1) t show "cache_ok (block_lists ?p ! t')"
    by (simp add: nth_list_update)
qed

lemma alloc_block_inv:
  assumes inv: "pool_inv hdr pool" and t: "t < ARRAY_SIZE_block_desc"
    and pg: "pages_ok pool pages"
    and ab: "alloc_block hdr pages (pool\<lparr>alloc_flag := 1\<rparr>) t = Inr (pool1, blk)"
  shows "pool_inv hdr (pool1\<lparr>alloc_flag := 0\<rparr>) \<and>
         (blk = NULL \<or>
          (\<exists>a b. blk = Blk a \<and> a \<in> set (head (block_lists pool1 ! t)) \<and>
                 mem pool1 a = Some b \<and> free_slots b \<noteq> 0))"
proof (cases pages)
  case None
  with ab have "pool1 = pool\<lparr>alloc_flag := 1\<rparr>" "blk = NULL"
    by (simp_all add: alloc_block_def)
  with inv show ?thesis by (simp add: pool_inv_alloc_flag_same)
next
  case (Some p)
  obtain a raw where p: "p = (a, raw)" by (cases p)
  note d = pool_invD [OF inv]
  let ?n = "slots_per_block (block_desc hdr ! t)"
  let ?l = "block_lists pool ! t"
  let ?b = "raw\<lparr>slot_info := replicate ?n SLOT_FREE @ drop ?n (slot_info raw),
                 free_slots := of_nat ?n, under_reclaim := False\<rparr>"
  let ?m = "(mem pool)(a \<mapsto> ?b)"
  from pg Some p have fresh: "mem pool a = None" and raw: "length (slot_info raw) = MAX_SLOTS"
    by (simp_all add: pages_ok_def)
  note nb = slots_per_block_bounds [OF t, of hdr]
  from nb have n0: "0 < ?n" and n32: "?n \<le> MAX_SLOTS" by simp_all
  note nbk = new_block_ok [OF raw n0 n32]
  from ab Some p obtain l2 where ci: "cache_insert_block ?m (Blk a) (?l\<lparr>head := a # head ?l\<rparr>) = Inr l2"
    and p1: "pool1 = pool\<lparr>alloc_flag := 1,
        block_lists := (block_lists pool)[t := l2\<lparr>block_count := block_count l2 + 1\<rparr>],
        mem := ?m\<rparr>"
    and blk: "blk = Blk a"
    by (auto simp: alloc_block_def Let_def split: sum.splits)
  have "a \<notin> set (head ?l)" by (rule unlisted [OF d(5) fresh t])
  with d(4) [OF t] have nc: "Blk a \<notin> set (block_cache ?l)"
    by (auto simp: cache_ok_def)
  have "cache_ok l2 \<and> head l2 = head (?l\<lparr>head := a # head ?l\<rparr>) \<and>
      block_count l2 = block_count (?l\<lparr>head := a # head ?l\<rparr>)"
    by (rule cache_insert_block_ok [OF cache_ok_head_cons [OF d(4) [OF t]] _ _ ci])
       (use nc in simp_all)
  then have c: "cache_ok (l2\<lparr>block_count := block_count l2 + 1\<rparr>)"
    "head (l2\<lparr>block_count := block_count l2 + 1\<rparr>) = a # head ?l"
    by simp_all
  have "pool_inv hdr (pool\<lparr>block_lists := (block_lists pool)
      [t := l2\<lparr>block_count := block_count l2 + 1\<rparr>], mem := ?m\<rparr>)"
    by (rule pool_inv_new_block [OF inv t fresh c nbk(1,2)])
  then have "pool_inv hdr (pool1\<lparr>alloc_flag := 0\<rparr>)"
    using p1 by (simp add: pool_inv_def lists_ok_def blocks_ok_def)
  moreover have "a \<in> set (head (block_lists pool1 ! t))"
    using p1 c(2) d(1) t by simp
  moreover have "mem pool1 a = Some ?b" using p1 by simp
  moreover have "free_slots ?b \<noteq> 0" using nbk(3) by simp
  ultimately show ?thesis using blk by blast
qed

lemma alloc_found_inv:
  assumes inv: "pool_inv hdr (pool1\<lparr>alloc_flag := 0\<rparr>)" and t: "t < ARRAY_SIZE_block_desc"
    and a: "a \<in> set (head (block_lists pool1 ! t))"
    and b: "mem pool1 a = Some b" "free_slots b \<noteq> 0"
  shows "\<exists>pool2 h. alloc_found hdr pool1 t (Blk a) = Inr (pool2, h) \<and> pool_inv hdr pool2"
proof -
  let ?p = "pool1\<lparr>alloc_flag := 0\<rparr>"
  let ?n = "slots_per_block (block_desc hdr ! t)"
  let ?s = "first_free_slot (b\<lparr>free_slots := free_slots b - 1\<rparr>) ?n 0"
  note d = pool_invD [OF inv]
  from a have a': "a \<in> set (head (block_lists ?p ! t))" by simp
  from listed_block [OF d(5) t a'] b(1) have len: "length (slot_info b) = MAX_SLOTS"
    and zb: "ZB_I1 ?n b" by auto
  from first_free_slot_found [OF zb b(2)] have s: "?s < ?n" "?s < length (slot_info b)"
    "slot_info b ! ?s = SLOT_FREE" by simp_all
  let ?b2 = "b\<lparr>free_slots := free_slots b - 1, slot_info := (slot_info b)[?s := SLOT_OCCUPIED]\<rparr>"
  from s(2) len b(1) have f: "alloc_found hdr pool1 t (Blk a) =
      Inr (pool1\<lparr>mem := (mem pool1)(a \<mapsto> ?b2), alloc_flag := 0\<rparr>,
           metadata_to_handle a (of_nat t) (of_nat ?s))"
    by (simp add: alloc_found_def Let_def)
  have "pool_inv hdr (?p\<lparr>mem := (mem ?p)(a \<mapsto> ?b2)\<rparr>)"
    by (rule pool_inv_mem_update [OF inv t a' _ ZB_I1_occupy [OF zb s]]) (simp add: len)
  then have "pool_inv hdr (pool1\<lparr>mem := (mem pool1)(a \<mapsto> ?b2), alloc_flag := 0\<rparr>)"
    by (simp add: pool_inv_def lists_ok_def blocks_ok_def)
  with f show ?thesis by simp
qed

lemma alloc_check_inv:
  assumes inv: "pool_inv hdr pool" and t: "t < ARRAY_SIZE_block_desc"
    and pg: "pages_ok pool pages"
  shows "alloc_check hdr pages pool t \<noteq> None \<and>
    (\<forall>pool1 blk. alloc_check hdr pages pool t = Some (Inr (pool1, blk)) \<longrightarrow>
       pool_inv hdr (pool1\<lparr>alloc_flag := 0\<rparr>) \<and>
       (blk = NULL \<or>
        (\<exists>a b. blk = Blk a \<and> a \<in> set (head (block_lists pool1 ! t)) \<and>
               mem pool1 a = Some b \<and> free_slots b \<noteq> 0)))"
proof -
  note d = pool_invD [OF inv]
  let ?l = "block_lists pool ! t"
  show ?thesis
  proof (cases "cache_find_block (mem pool) ?l")
    case (Inl f)
    then show ?thesis by (subst (1 2) alloc_check.simps) simp
  next
    case (Inr blk)
    show ?thesis
    proof (cases "blk = NULL")
      case True
      with Inr d(2) have e: "alloc_check hdr pages pool t =
          Some (alloc_block hdr pages (pool\<lparr>alloc_flag := 1\<rparr>) t)"
        by (subst alloc_check.simps) simp
      show ?thesis unfolding e using alloc_block_inv [OF inv t pg] by auto
    next
      case False
      with Inr have e: "alloc_check hdr pages pool t = Some (Inr (pool, blk))"
        by (subst alloc_check.simps) simp
      from Inr False cache_find_entry_Inr [of "mem pool" "take BLOCK_CACHE_SIZE (block_cache ?l)" blk]
      obtain a b where ab: "blk = Blk a" "Blk a \<in> set (take BLOCK_CACHE_SIZE (block_cache ?l))"
        "mem pool a = Some b" "free_slots b \<noteq> 0"
        by (auto simp: cache_find_block_def)
      from ab(2) have "Blk a \<in> set (block_cache ?l)" by (rule in_set_takeD)
      with d(4) [OF t] have "a \<in> set (head ?l)" by (auto simp: cache_ok_def)
      with ab inv show ?thesis unfolding e by (simp add: pool_inv_alloc_flag_same)
    qed
  qed
qed

lemma zblock_alloc_inv:
  assumes inv: "pool_inv hdr pool" and pg: "pages_ok pool pages"
  shows "zblock_alloc hdr pages pool sz \<noteq> None \<and>
    (\<forall>pool' r. zblock_alloc hdr pages pool sz = Some (Inr (pool', r)) \<longrightarrow> pool_inv hdr pool')"
proof (cases "sz = 0 \<or> PAGE_SIZE < sz")
  case True
  with inv show ?thesis by (auto simp: zblock_alloc_def)
next
  case False
  let ?t = "select_block_type hdr sz 0"
  show ?thesis
  proof (cases "ARRAY_SIZE_block_desc \<le> ?t")
    case True
    with False show ?thesis by (simp add: zblock_alloc_def Let_def)
  next
    case nt: False
    then have t: "?t < ARRAY_SIZE_block_desc" by simp
    note ac = alloc_check_inv [OF inv t pg]
    from ac obtain res where res: "alloc_check hdr pages pool ?t = Some res" by auto
    show ?thesis
    proof (cases res)
      case (Inl f)
      with False nt res show ?thesis by (simp add: zblock_alloc_def Let_def)
    next
      case (Inr pb)
      obtain pool1 blk where pb: "pb = (pool1, blk)" by (cases pb)
      from ac res Inr pb have i1: "pool_inv hdr (pool1\<lparr>alloc_flag := 0\<rparr>)"
        and bl: "blk = NULL \<or>
        (\<exists>a b. blk = Blk a \<and> a \<in> set (head (block_lists pool1 ! ?t)) \<and>
               mem pool1 a = Some b \<and> free_slots b \<noteq> 0)"
        by simp_all
      show ?thesis
      proof (cases "blk = NULL")
        case True
        with False nt res Inr pb i1 show ?thesis by (simp add: zblock_alloc_def Let_def)
      next
        case nn: False
        with bl obtain a b where ab: "blk = Blk a" "a \<in> set (head (block_lists pool1 ! ?t))"
          "mem pool1 a = Some b" "free_slots b \<noteq> 0" by blast
        from alloc_found_inv [OF i1 t ab(2-4)] obtain pool2 h where
          "alloc_found hdr pool1 ?t (Blk a) = Inr (pool2, h)" "pool_inv hdr pool2" by blast
        with False nt res Inr pb nn ab(1) show ?thesis
          by (simp add: zblock_alloc_def Let_def)
      qed
    qed
  qed
qed

paragraph \<open>Reclaim and pool creation\<close>

lemma ZB_I1_fields:
  assumes "free_slots b' = free_slots b" and "slot_info b' = slot_info b"
  shows "ZB_I1 n b' = ZB_I1 n b"
  using assms by (simp add: ZB_I1_def)

lemma evict_inv:
  assumes inv: "pool_inv hdr pool" and ev: "evict_ok evict" and e: "evict pool h = (ret, p1)"
  shows "pool_inv hdr p1" and "block_lists p1 = block_lists pool"
    and "\<And>a b. mem pool a = Some b \<Longrightarrow> \<exists>b1. mem p1 a = Some b1 \<and> same_free_slots b b1"
proof -
  note d = pool_invD [OF inv]
  from ev e have bl: "block_lists p1 = block_lists pool" and fl: "alloc_flag p1 = alloc_flag pool"
    and m: "\<forall>a. case mem pool a of None \<Rightarrow> mem p1 a = None
             | Some b \<Rightarrow> (\<exists>b1. mem p1 a = Some b1 \<and> same_free_slots b b1)"
    unfolding evict_ok_def by (metis snd_conv)+
  show "block_lists p1 = block_lists pool" by (rule bl)
  show sf: "\<exists>b1. mem p1 a = Some b1 \<and> same_free_slots b b1" if "mem pool a = Some b" for a b
    using m [rule_format, of a] that by simp
  have "blocks_ok hdr p1"
    unfolding blocks_ok_def
  proof (intro allI impI ballI)
    fix t x
    assume t: "t < ARRAY_SIZE_block_desc" and "x \<in> set (head (block_lists p1 ! t))"
    with bl have x: "x \<in> set (head (block_lists pool ! t))" by simp
    from listed_block [OF d(5) t x] obtain b where b: "mem pool x = Some b"
      "length (slot_info b) = MAX_SLOTS" "ZB_I1 (slots_per_block (block_desc hdr ! t)) b" .
    from sf [OF b(1)] obtain b1 where b1: "mem p1 x = Some b1" "same_free_slots b b1" by blast
    from b1(2) b(2) have "length (slot_info b1) = MAX_SLOTS" by (simp add: same_free_slots_def)
    with b1 ZB_I1_same_free_slots [OF b(3) b1(2)]
    show "\<exists>b. mem p1 x = Some b \<and> length (slot_info b) = MAX_SLOTS \<and>
        ZB_I1 (slots_per_block (block_desc hdr ! t)) b" by simp
  qed
  with d bl fl show "pool_inv hdr p1" by (simp add: pool_inv_def lists_ok_def)
qed

lemma reclaim_slots_inv:
  assumes "pool_inv hdr pool" and "evict_ok evict" and "t < ARRAY_SIZE_block_desc"
    and "a \<in> set (head (block_lists pool ! t))"
    and "\<forall>s \<in> set slots. s < slots_per_block (block_desc hdr ! t)"
    and "reclaim_slots evict a t slots pool k = Inr (pool1, k1)"
  shows "pool_inv hdr pool1 \<and> block_lists pool1 = block_lists pool"
  using assms
proof (induction slots arbitrary: pool k)
  case Nil
  then show ?case by simp
next
  case (Cons s rest)
  note inv = Cons.prems(1) and ev = Cons.prems(2) and t = Cons.prems(3) and a = Cons.prems(4)
  note d = pool_invD [OF inv]
  let ?n = "slots_per_block (block_desc hdr ! t)"
  from Cons.prems(5) have s: "s < ?n" and rest: "\<forall>s \<in> set rest. s < ?n" by simp_all
  from listed_block [OF d(5) t a] obtain b where b: "mem pool a = Some b"
    "length (slot_info b) = MAX_SLOTS" "ZB_I1 ?n b" .
  note nb = slots_per_block_bounds [OF t, of hdr]
  show ?case
  proof (cases "slot_info b ! s = SLOT_OCCUPIED \<or> slot_info b ! s = SLOT_UNMAPPED")
    case False
    with Cons.prems(6) b(1) have "reclaim_slots evict a t rest pool k = Inr (pool1, k1)"
      by simp
    from Cons.IH [OF inv ev t a rest this] show ?thesis .
  next
    case True
    then have nf: "slot_info b ! s \<noteq> SLOT_FREE"
      by (auto simp: SLOT_OCCUPIED_def SLOT_UNMAPPED_def SLOT_FREE_def)
    let ?h = "metadata_to_handle a (of_nat t) (of_nat s)"
    obtain ret p1 where e: "evict pool ?h = (ret, p1)" by (cases "evict pool ?h")
    note ei = evict_inv [OF inv ev e]
    show ?thesis
    proof (cases "ret = 0")
      case False
      with Cons.prems(6) b(1) True e have "pool1 = p1" by simp
      with ei(1,2) show ?thesis by simp
    next
      case r0: True
      from ei(3) [OF b(1)] obtain b1 where b1: "mem p1 a = Some b1" "same_free_slots b b1"
        by blast
      from s nb b(2) have sl: "s < length (slot_info b)" by simp
      from b1(2) b(2) sl nf have len1: "length (slot_info b1) = MAX_SLOTS"
        and sl1: "s < length (slot_info b1)" and nf1: "slot_info b1 ! s \<noteq> SLOT_FREE"
        by (simp_all add: same_free_slots_def)
      have zb1: "ZB_I1 ?n b1" by (rule ZB_I1_same_free_slots [OF b(3) b1(2)])
      from nb have nle: "?n \<le> MAX_SLOTS" by simp
      let ?b2 = "b1\<lparr>slot_info := (slot_info b1)[s := SLOT_FREE], free_slots := free_slots b1 + 1\<rparr>"
      let ?p2 = "p1\<lparr>mem := (mem p1)(a \<mapsto> ?b2)\<rparr>"
      from ZB_I1_release [OF zb1 s sl1 nf1 nle] have "ZB_I1 ?n ?b2"
        using ZB_I1_fields [of ?b2 "b1\<lparr>free_slots := free_slots b1 + 1,
          slot_info := (slot_info b1)[s := SLOT_FREE]\<rparr>" ?n] by simp
      moreover from a ei(2) have a1: "a \<in> set (head (block_lists p1 ! t))" by simp
      ultimately have inv2: "pool_inv hdr ?p2"
        using pool_inv_mem_update [OF ei(1) t, of a ?b2] len1 by simp
      from a1 have a2: "a \<in> set (head (block_lists ?p2 ! t))" by simp
      from Cons.prems(6) b(1) True e r0 b1(1) have
        "reclaim_slots evict a t rest ?p2 (k + 1) = Inr (pool1, k1)" by simp
      from Cons.IH [OF inv2 ev t a2 rest this] ei(2) show ?thesis by simp
    qed
  qed
qed

lemma reclaim_finish_inv:
  assumes inv: "pool_inv hdr pool" and t: "t < ARRAY_SIZE_block_desc"
    and a: "a \<in> set (head (block_lists pool ! t))"
    and nc: "Blk a \<notin> set (block_cache (block_lists pool ! t))"
    and rf: "reclaim_finish hdr a t pool k = Inr (pool', r)"
  shows "pool_inv hdr pool'"
proof -
  note d = pool_invD [OF inv]
  let ?n = "slots_per_block (block_desc hdr ! t)"
  let ?l = "block_lists pool ! t"
  from listed_block [OF d(5) t a] obtain b where b: "mem pool a = Some b"
    "length (slot_info b) = MAX_SLOTS" "ZB_I1 ?n b" .
  show ?thesis
  proof (cases "unat (free_slots b) \<noteq> ?n")
    case True
    let ?m1 = "(mem pool)(a \<mapsto> b\<lparr>under_reclaim := False\<rparr>)"
    from rf b(1) True obtain l1 where ci: "cache_insert_block ?m1 (Blk a) ?l = Inr l1"
      and p: "pool' = pool\<lparr>block_lists := (block_lists pool)[t := l1], mem := ?m1\<rparr>"
      by (auto simp: reclaim_finish_def Let_def split: sum.splits)
    from cache_insert_block_ok [OF d(4) [OF t] a nc ci] have c: "cache_ok l1" "head l1 = head ?l"
      by simp_all
    have "pool_inv hdr (pool\<lparr>block_lists := (block_lists pool)[t := l1], mem := ?m1\<rparr>)"
      by (rule pool_inv_recache [OF inv t a c]) (use b in simp_all)
    with p show ?thesis by simp
  next
    case False
    define l1 where "l1 = (list_del a (block_lists pool) ! t)
      \<lparr>block_count := block_count (list_del a (block_lists pool) ! t) - 1\<rparr>"
    from rf b(1) False have p: "pool' =
        pool\<lparr>block_lists := (list_del a (block_lists pool))[t := l1],
             mem := (mem pool)(a := None)\<rparr>"
      by (auto simp: reclaim_finish_def Let_def l1_def)
    have f: "block_cache l1 = block_cache ?l" "head l1 = remove1 a (head ?l)"
      using d(1) t by (simp_all add: l1_def list_del_nth)
    have "cache_ok l1"
      by (rule cache_ok_fields [OF cache_ok_remove [OF d(4) [OF t] nc]]) (use f in simp_all)
    with f have "pool_inv hdr (pool\<lparr>block_lists := (list_del a (block_lists pool))[t := l1],
             mem := (mem pool)(a := None)\<rparr>)"
      by (intro pool_inv_delete [OF inv t a]) simp_all
    with p show ?thesis by simp
  qed
qed

lemma reclaim_types_inv:
  assumes "pool_inv hdr pool" and "evict_ok evict" and "n \<le> ARRAY_SIZE_block_desc"
    and "reclaim_types hdr evict pool n = Inr (pool', r)"
  shows "pool_inv hdr pool'"
  using assms
proof (induction n)
  case 0
  then show ?case by simp
next
  case (Suc t)
  note inv = Suc.prems(1) and ev = Suc.prems(2)
  from Suc.prems(3) have t: "t < ARRAY_SIZE_block_desc" and tl: "t \<le> ARRAY_SIZE_block_desc"
    by simp_all
  note d = pool_invD [OF inv]
  let ?l = "block_lists pool ! t"
  let ?blk = "list_last_entry (head ?l) t"
  show ?case
  proof (cases "?blk = NULL \<or> is_in_cache ?blk ?l \<noteq> None")
    case True
    with Suc.prems(4) have "reclaim_types hdr evict pool t = Inr (pool', r)"
      by (auto simp: Let_def split: if_splits)
    from Suc.IH [OF inv ev tl this] show ?thesis .
  next
    case False
    then have nn: "?blk \<noteq> NULL" and ic: "is_in_cache ?blk ?l = None" by simp_all
    from Suc.prems(4) nn ic obtain a where blk: "?blk = Blk a"
      by (cases ?blk) (simp_all add: Let_def)
    then have a: "a \<in> set (head ?l)"
      by (cases "head ?l") (auto simp: list_last_entry_def split: list.splits)
    from is_in_cache_None [OF d(4) [OF t] ic] blk have nc: "Blk a \<notin> set (block_cache ?l)"
      by simp
    from listed_block [OF d(5) t a] obtain b where b: "mem pool a = Some b"
      "length (slot_info b) = MAX_SLOTS" "ZB_I1 (slots_per_block (block_desc hdr ! t)) b" .
    let ?p0 = "pool\<lparr>mem := (mem pool)(a \<mapsto> b\<lparr>under_reclaim := True\<rparr>)\<rparr>"
    have inv0: "pool_inv hdr ?p0"
      by (rule pool_inv_mem_update [OF inv t a]) (use b in simp_all)
    from Suc.prems(4) nn ic blk b(1) obtain p1 k1 where
      rs: "reclaim_slots evict a t [0..<slots_per_block (block_desc hdr ! t)] ?p0 0 = Inr (p1, k1)"
      and rf: "reclaim_finish hdr a t p1 k1 = Inr (pool', r)"
      by (auto simp: Let_def split: sum.splits)
    have "pool_inv hdr p1 \<and> block_lists p1 = block_lists ?p0"
      by (rule reclaim_slots_inv [OF inv0 ev t _ _ rs]) (use a in simp_all)
    then have i1: "pool_inv hdr p1" and bl: "block_lists p1 = block_lists pool" by simp_all
    show ?thesis
      by (rule reclaim_finish_inv [OF i1 t _ _ rf]) (use a nc bl in simp_all)
  qed
qed

lemma zblock_reclaim_block_inv:
  assumes "pool_inv hdr pool" and "evict_ok evict"
    and "zblock_reclaim_block hdr evict pool = Inr (pool', r)"
  shows "pool_inv hdr pool'"
  using assms reclaim_types_inv [of hdr pool evict ARRAY_SIZE_block_desc pool' r]
  by (simp add: zblock_reclaim_block_def)

lemma zblock_create_pool_inv:
  assumes "zblock_create_pool hdr k = Some pool"
  shows "pool_inv hdr pool"
proof -
  from assms have p: "pool = \<lparr>block_lists = replicate ARRAY_SIZE_block_desc empty_block_list,
      alloc_flag = 0, mem = Map.empty\<rparr>"
    by (auto simp: zblock_create_pool_def split: if_splits)
  show ?thesis
    unfolding p
    by (simp add: pool_inv_def lists_ok_def blocks_ok_def cache_ok_def empty_block_list_def
          BLOCK_CACHE_SIZE_def)
qed

text \<open>
  Claim C6 (ZB-I1). A pool just created satisfies \<open>pool_inv\<close>; in a pool that satisfies it
  every block of every list is in memory and its \<^verbatim>\<open>free_slots\<close> is the number of
  \<^verbatim>\<open>SLOT_FREE\<close> entries of its \<^verbatim>\<open>slot_info\<close> below \<^verbatim>\<open>slots_per_block\<close> of its type; and
  every completed operation leads from a pool that satisfies it to one that does:
  \<^verbatim>\<open>zblock_alloc\<close> (which always returns) given pages the pool does not hold already,
  \<^verbatim>\<open>zblock_free\<close>, \<^verbatim>\<open>zblock_map\<close> and \<^verbatim>\<open>zblock_unmap\<close> on a handle that was allocated and
  not freed since, and \<^verbatim>\<open>zblock_reclaim_block\<close> with an eviction callback that frees no
  slot itself.
\<close>

theorem pool_inv_preserved:
  "(zblock_create_pool hdr k = Some pool \<longrightarrow> pool_inv hdr pool) \<and>
   (pool_inv hdr pool \<and> t < ARRAY_SIZE_block_desc \<and> a \<in> set (head (block_lists pool ! t)) \<longrightarrow>
      (\<exists>b. mem pool a = Some b \<and> ZB_I1 (slots_per_block (block_desc hdr ! t)) b)) \<and>
   (pool_inv hdr pool \<and> pages_ok pool pages \<longrightarrow>
      zblock_alloc hdr pages pool sz \<noteq> None \<and>
      (zblock_alloc hdr pages pool sz = Some (Inr (pool', r)) \<longrightarrow> pool_inv hdr pool')) \<and>
   (pool_inv hdr pool \<and> valid_handle hdr pool h \<and> zblock_free hdr pool h = Inr pool' \<longrightarrow>
      pool_inv hdr pool') \<and>
   (pool_inv hdr pool \<and> valid_handle hdr pool h \<and> zblock_map hdr pool h = Inr (pool', x) \<longrightarrow>
      pool_inv hdr pool') \<and>
   (pool_inv hdr pool \<and> valid_handle hdr pool h \<and> zblock_unmap pool h = Inr pool' \<longrightarrow>
      pool_inv hdr pool') \<and>
   (pool_inv hdr pool \<and> evict_ok evict \<and>
    zblock_reclaim_block hdr evict pool = Inr (pool', n) \<longrightarrow> pool_inv hdr pool')"
proof (intro conjI impI)
  assume "pool_inv hdr pool \<and> t < ARRAY_SIZE_block_desc \<and> a \<in> set (head (block_lists pool ! t))"
  then have "blocks_ok hdr pool" and "t < ARRAY_SIZE_block_desc"
    and "a \<in> set (head (block_lists pool ! t))"
    by (simp_all add: pool_inv_def)
  then show "\<exists>b. mem pool a = Some b \<and> ZB_I1 (slots_per_block (block_desc hdr ! t)) b"
    by (rule listed_block) blast
next
  assume "pool_inv hdr pool \<and> pages_ok pool pages"
  then show "zblock_alloc hdr pages pool sz \<noteq> None"
    using zblock_alloc_inv [of hdr pool pages sz] by blast
next
  assume "pool_inv hdr pool \<and> pages_ok pool pages"
    and "zblock_alloc hdr pages pool sz = Some (Inr (pool', r))"
  then show "pool_inv hdr pool'"
    using zblock_alloc_inv [of hdr pool pages sz] by blast
qed (blast intro: zblock_create_pool_inv zblock_free_inv zblock_map_inv zblock_unmap_inv
       zblock_reclaim_block_inv)+

paragraph \<open>The example pools\<close>

lemma example_lists:
  assumes "t < ARRAY_SIZE_block_desc"
  shows "block_lists example_pool ! t =
    (if t = 28 then \<lparr>head = [0x10000], block_cache = Blk 0x10000 # replicate 31 NULL,
                      block_count = 1\<rparr>
     else empty_block_list)"
  using assms by (simp add: example_pool_def ARRAY_SIZE_block_desc_def nth_list_update)

lemma nth_Cons_replicate_NULL:
  "i < Suc n \<Longrightarrow> j < Suc n \<Longrightarrow> i \<noteq> j \<Longrightarrow>
   (c # replicate n NULL) ! i = (c # replicate n NULL) ! j \<Longrightarrow> (c # replicate n NULL) ! i = NULL"
  by (cases i; cases j) simp_all

lemma example_pool_inv: "pool_inv 64 example_pool"
proof (rule pool_invI)
  show "length (block_lists example_pool) = ARRAY_SIZE_block_desc"
    by (simp add: example_pool_def)
  show "alloc_flag example_pool = 0" by (simp add: example_pool_def)
  show "lists_ok example_pool"
    by (simp add: lists_ok_def example_lists empty_block_list_def)
  show "blocks_ok 64 example_pool"
    unfolding blocks_ok_def
  proof (intro allI impI ballI)
    fix t a
    assume t: "t < ARRAY_SIZE_block_desc" and "a \<in> set (head (block_lists example_pool ! t))"
    then have "t = 28" and "a = 0x10000"
      by (auto simp: example_lists empty_block_list_def split: if_splits)
    then show "\<exists>b. mem example_pool a = Some b \<and> length (slot_info b) = MAX_SLOTS \<and>
        ZB_I1 (slots_per_block (block_desc 64 ! t)) b"
      by (simp add: example_pool_def example_block_def MAX_SLOTS_def SLOT_BITS_def ZB_I1_def
            block_desc_64 SLOT_FREE_def SLOT_OCCUPIED_def)
  qed
  fix t assume t: "t < ARRAY_SIZE_block_desc"
  show "cache_ok (block_lists example_pool ! t)"
  proof (cases "t = 28")
    case True
    have "\<forall>i<32. \<forall>j<32. i \<noteq> j \<and>
        (Blk 0x10000 # replicate 31 NULL) ! i = (Blk 0x10000 # replicate 31 NULL) ! j \<longrightarrow>
        (Blk 0x10000 # replicate 31 NULL) ! i = NULL"
      using nth_Cons_replicate_NULL [of _ 31 _ "Blk 0x10000"] by auto
    with True t show ?thesis
      by (simp add: example_lists cache_ok_def BLOCK_CACHE_SIZE_def)
  next
    case False
    with t show ?thesis
      by (simp add: example_lists cache_ok_def empty_block_list_def BLOCK_CACHE_SIZE_def)
  qed
qed

lemma example_handle:
  "handle_to_metadata (metadata_to_handle 0x10000 28 1) = (0x10000, 28, 1)"
  by (rule handle_roundtrip) (simp_all add: PAGE_SIZE_def PAGE_SHIFT_def)

lemma example_valid_handle: "valid_handle 64 example_pool (metadata_to_handle 0x10000 28 1)"
  by (simp add: valid_handle_def example_handle example_lists ARRAY_SIZE_block_desc_def
        block_desc_64 example_pool_def example_block_def SLOT_FREE_def SLOT_OCCUPIED_def)

lemma example_pool_free:
  "\<exists>p. zblock_free 64 example_pool (metadata_to_handle 0x10000 28 1) = Inr p"
  by (simp add: zblock_free_def example_handle example_pool_def example_block_def Let_def
        ARRAY_SIZE_block_desc_def block_desc_64 is_in_cache_def BLOCK_CACHE_SIZE_def)

lemma example_pool_map:
  "\<exists>p x. zblock_map 64 example_pool (metadata_to_handle 0x10000 28 1) = Inr (p, x)"
  by (simp add: zblock_map_def example_handle example_pool_def ARRAY_SIZE_block_desc_def)

lemma example_pool_unmap:
  "\<exists>p. zblock_unmap example_pool (metadata_to_handle 0x10000 28 1) = Inr p"
  by (simp add: zblock_unmap_def example_handle example_pool_def)

lemma evict_ok_example: "evict_ok (\<lambda>p h. (0, p))"
  by (simp add: evict_ok_def same_free_slots_def split: option.split)

lemma uncached_lists:
  assumes "t < ARRAY_SIZE_block_desc"
  shows "block_lists uncached_pool ! t =
    (if t = 28 then \<lparr>head = [0x10000], block_cache = replicate 32 NULL, block_count = 1\<rparr>
     else empty_block_list)"
  using assms by (simp add: uncached_pool_def ARRAY_SIZE_block_desc_def nth_list_update)

lemma uncached_pool_inv: "pool_inv 64 uncached_pool"
proof (rule pool_invI)
  show "length (block_lists uncached_pool) = ARRAY_SIZE_block_desc"
    by (simp add: uncached_pool_def)
  show "alloc_flag uncached_pool = 0" by (simp add: uncached_pool_def)
  show "lists_ok uncached_pool"
    by (simp add: lists_ok_def uncached_lists empty_block_list_def)
  show "blocks_ok 64 uncached_pool"
    unfolding blocks_ok_def
  proof (intro allI impI ballI)
    fix t a
    assume t: "t < ARRAY_SIZE_block_desc" and "a \<in> set (head (block_lists uncached_pool ! t))"
    then have "t = 28" and "a = 0x10000"
      by (auto simp: uncached_lists empty_block_list_def split: if_splits)
    then show "\<exists>b. mem uncached_pool a = Some b \<and> length (slot_info b) = MAX_SLOTS \<and>
        ZB_I1 (slots_per_block (block_desc 64 ! t)) b"
      by (simp add: uncached_pool_def example_block_def MAX_SLOTS_def SLOT_BITS_def ZB_I1_def
            block_desc_64 SLOT_FREE_def SLOT_OCCUPIED_def)
  qed
  fix t assume t: "t < ARRAY_SIZE_block_desc"
  then show "cache_ok (block_lists uncached_pool ! t)"
    by (simp add: uncached_lists cache_ok_def empty_block_list_def BLOCK_CACHE_SIZE_def)
qed

lemma uncached_pool_reclaim:
  "\<exists>p. zblock_reclaim_block 64 (\<lambda>p h. (0, p)) uncached_pool = Inr (p, Inr 2)"
proof -
  have n: "ARRAY_SIZE_block_desc = Suc 28"
    by (simp add: ARRAY_SIZE_block_desc_def)
  have l: "block_lists uncached_pool ! 28 =
      \<lparr>head = [0x10000], block_cache = replicate 32 NULL, block_count = 1\<rparr>"
    by (simp add: uncached_lists ARRAY_SIZE_block_desc_def)
  have c: "is_in_cache (Blk 0x10000)
      \<lparr>head = [0x10000], block_cache = replicate 32 NULL, block_count = 1\<rparr> = None"
    by (simp add: is_in_cache_def is_in_cache_from_replicate_NULL)
  have s: "slots_per_block (block_desc 64 ! 28) = 7"
    by (simp add: block_desc_64)
  have u: "[0..<7] = [0, 1, 2, 3, 4, 5, 6]"
    by code_simp
  have m: "mem uncached_pool = [0x10000 \<mapsto> example_block]"
    by (simp add: uncached_pool_def)
  show ?thesis
    unfolding zblock_reclaim_block_def n
    by (subst reclaim_types.simps(2))
       (simp add: l c s u m Let_def list_last_entry_def example_block_def
          reclaim_finish_def SLOT_FREE_def SLOT_OCCUPIED_def SLOT_UNMAPPED_def)
qed

theorem pool_inv_preserved_witness:
  "(\<exists>p. zblock_create_pool 64 True = Some p \<and> pool_inv 64 p) \<and>
   (\<exists>b. mem example_pool 0x10000 = Some b \<and> ZB_I1 (slots_per_block (block_desc 64 ! 28)) b) \<and>
   (\<exists>p h. zblock_alloc 64 None example_pool 4096 = Some (Inr (p, Inr h)) \<and> pool_inv 64 p) \<and>
   (\<exists>p. zblock_free 64 example_pool (metadata_to_handle 0x10000 28 1) = Inr p \<and> pool_inv 64 p) \<and>
   (\<exists>p x. zblock_map 64 example_pool (metadata_to_handle 0x10000 28 1) = Inr (p, x) \<and>
      pool_inv 64 p) \<and>
   (\<exists>p. zblock_unmap example_pool (metadata_to_handle 0x10000 28 1) = Inr p \<and> pool_inv 64 p) \<and>
   (\<exists>p. zblock_reclaim_block 64 (\<lambda>p h. (0, p)) uncached_pool = Inr (p, Inr 2) \<and>
      pool_inv 64 p)"
proof -
  let ?h = "metadata_to_handle 0x10000 28 1"
  have c: "\<exists>p. zblock_create_pool 64 True = Some p"
    by (simp add: zblock_create_pool_def block_desc_64 ARRAY_SIZE_block_desc_def
          PAGE_SIZE_def PAGE_SHIFT_def)
  have m: "(28 :: nat) < ARRAY_SIZE_block_desc \<and>
      (0x10000 :: 64 word) \<in> set (head (block_lists example_pool ! 28))"
    by (simp add: example_lists ARRAY_SIZE_block_desc_def)
  have g: "pages_ok example_pool None"
    by (simp add: pages_ok_def)
  note i = example_pool_inv and v = example_valid_handle and e = evict_ok_example
    and u = uncached_pool_inv
  from c obtain p0 where p0: "zblock_create_pool 64 True = Some p0" by blast
  from example_pool_alloc obtain p1 h1
    where p1: "zblock_alloc 64 None example_pool 4096 = Some (Inr (p1, Inr h1))" by blast
  from example_pool_free obtain p2 where p2: "zblock_free 64 example_pool ?h = Inr p2" by blast
  from example_pool_map obtain p3 x3
    where p3: "zblock_map 64 example_pool ?h = Inr (p3, x3)" by blast
  from example_pool_unmap obtain p4 where p4: "zblock_unmap example_pool ?h = Inr p4" by blast
  from uncached_pool_reclaim obtain p5
    where p5: "zblock_reclaim_block 64 (\<lambda>p h. (0, p)) uncached_pool = Inr (p5, Inr 2)" by blast
  from pool_inv_preserved [of 64 True p0] p0 have 1: "pool_inv 64 p0" by blast
  from pool_inv_preserved [of 64 _ example_pool 28 "0x10000"] i m
  have 2: "\<exists>b. mem example_pool 0x10000 = Some b \<and> ZB_I1 (slots_per_block (block_desc 64 ! 28)) b"
    by blast
  from pool_inv_preserved [of 64 _ example_pool _ _ None 4096 p1 "Inr h1"] i g p1
  have 3: "pool_inv 64 p1" by blast
  from pool_inv_preserved [of 64 _ example_pool _ _ _ _ p2 _ ?h] i v p2
  have 4: "pool_inv 64 p2" by blast
  from pool_inv_preserved [of 64 _ example_pool _ _ _ _ p3 _ ?h x3] i v p3
  have 5: "pool_inv 64 p3" by blast
  from pool_inv_preserved [of 64 _ example_pool _ _ _ _ p4 _ ?h] i v p4
  have 6: "pool_inv 64 p4" by blast
  from pool_inv_preserved [of 64 _ uncached_pool _ _ _ _ p5 _ _ _ "\<lambda>p h. (0, p)" "Inr 2"] u e p5
  have 7: "pool_inv 64 p5" by blast
  from 1 2 3 4 5 6 7 p0 p1 p2 p3 p4 p5 show ?thesis by blast
qed

subsection \<open>The block type of an allocation\<close>

text \<open>
  What \<^verbatim>\<open>zblock_alloc\<close> does with the index its search stops at: the cache of that type
  is searched, a new block is linked into the list of that type, and the handle carries
  the index.
\<close>

lemma cache_find_entry_returns:
  assumes "\<forall>c \<in> set cs. c = NULL \<or> (\<exists>a. c = Blk a \<and> m a \<noteq> None)"
  shows "\<exists>p. cache_find_entry m cs = Inr p"
  using assms
proof (induction m cs rule: cache_find_entry.induct)
  case (4 m a cs)
  then show ?case by (auto split: option.splits)
qed auto

lemma cache_find_entry_NULL:
  assumes "cache_find_entry m (c # cs) = Inr NULL"
  shows "c = NULL \<or> (\<exists>a b. c = Blk a \<and> m a = Some b \<and> free_slots b = 0)"
  using assms by (cases c) (auto split: option.splits if_splits)

lemma cache_insert_index_first:
  assumes "c = NULL \<or> (\<exists>a b. c = Blk a \<and> m a = Some b \<and> free_slots b = 0)"
  shows "cache_insert_index m (c # cs) i mf mi = Inr i"
  using assms by auto

lemma cache_find_block_returns:
  assumes "pool_inv hdr pool" and "t < ARRAY_SIZE_block_desc"
  shows "\<exists>p. cache_find_block (mem pool) (block_lists pool ! t) = Inr p"
proof -
  note d = pool_invD [OF assms(1)]
  let ?l = "block_lists pool ! t"
  have "c = NULL \<or> (\<exists>a. c = Blk a \<and> mem pool a \<noteq> None)"
    if "c \<in> set (take BLOCK_CACHE_SIZE (block_cache ?l))" for c
  proof -
    from that have "c \<in> set (block_cache ?l)" by (rule in_set_takeD)
    with d(4) [OF assms(2)] have "c = NULL \<or> (\<exists>a. c = Blk a \<and> a \<in> set (head ?l))"
      by (auto simp: cache_ok_def)
    then show ?thesis
    proof
      assume "c = NULL" then show ?thesis by simp
    next
      assume "\<exists>a. c = Blk a \<and> a \<in> set (head ?l)"
      then obtain a where a: "c = Blk a" "a \<in> set (head ?l)" by blast
      from listed_block [OF d(5) assms(2) a(2)] obtain b where "mem pool a = Some b" .
      with a show ?thesis by simp
    qed
  qed
  then show ?thesis
    unfolding cache_find_block_def by (intro cache_find_entry_returns) blast
qed

lemma alloc_block_returns:
  assumes inv: "pool_inv hdr pool" and t: "t < ARRAY_SIZE_block_desc"
    and pg: "pages_ok pool (Some (a, raw))"
    and cf: "cache_find_block (mem pool) (block_lists pool ! t) = Inr NULL"
  shows "\<exists>pool1. alloc_block hdr (Some (a, raw)) (pool\<lparr>alloc_flag := 1\<rparr>) t = Inr (pool1, Blk a)"
proof -
  note d = pool_invD [OF inv]
  let ?l = "block_lists pool ! t"
  let ?n = "slots_per_block (block_desc hdr ! t)"
  let ?b = "raw\<lparr>slot_info := replicate ?n SLOT_FREE @ drop ?n (slot_info raw),
                 free_slots := of_nat ?n, under_reclaim := False\<rparr>"
  let ?m = "(mem pool)(a \<mapsto> ?b)"
  from pg have fresh: "mem pool a = None" by (simp add: pages_ok_def)
  from d(4) [OF t] have len: "length (block_cache ?l) = BLOCK_CACHE_SIZE"
    by (simp add: cache_ok_def)
  then obtain c cs where cs: "take BLOCK_CACHE_SIZE (block_cache ?l) = c # cs"
    by (cases "block_cache ?l") (simp_all add: BLOCK_CACHE_SIZE_def)
  from cf cs have "c = NULL \<or> (\<exists>a' b. c = Blk a' \<and> mem pool a' = Some b \<and> free_slots b = 0)"
    using cache_find_entry_NULL [of "mem pool" c cs] by (simp add: cache_find_block_def)
  with fresh have "c = NULL \<or> (\<exists>a' b. c = Blk a' \<and> ?m a' = Some b \<and> free_slots b = 0)"
    by auto
  then have "cache_insert_index ?m (c # cs) 0 (of_nat MAX_SLOTS) None = Inr 0"
    by (rule cache_insert_index_first)
  with cs have "\<exists>l2. cache_insert_block ?m (Blk a) (?l\<lparr>head := a # head ?l\<rparr>) = Inr l2"
    by (simp add: cache_insert_block_def)
  then show ?thesis
    by (auto simp: alloc_block_def Let_def)
qed

lemma alloc_check_result:
  assumes inv: "pool_inv hdr pool" and t: "t < ARRAY_SIZE_block_desc"
    and pg: "pages_ok pool pages" and al: "pages_aligned pool pages"
  shows "(pages = None \<and> alloc_check hdr pages pool t = Some (Inr (pool\<lparr>alloc_flag := 1\<rparr>, NULL))) \<or>
    (\<exists>pool1 a b. alloc_check hdr pages pool t = Some (Inr (pool1, Blk a)) \<and>
       a AND (PAGE_SIZE - 1) = 0 \<and> pool_inv hdr (pool1\<lparr>alloc_flag := 0\<rparr>) \<and>
       a \<in> set (head (block_lists pool1 ! t)) \<and> mem pool1 a = Some b \<and> free_slots b \<noteq> 0 \<and>
       (\<forall>t'. t' \<noteq> t \<longrightarrow> block_lists pool1 ! t' = block_lists pool ! t'))"
proof -
  note d = pool_invD [OF inv]
  let ?l = "block_lists pool ! t"
  note ac = alloc_check_inv [OF inv t pg]
  from cache_find_block_returns [OF inv t] obtain blk where
    blk: "cache_find_block (mem pool) ?l = Inr blk" by blast
  show ?thesis
  proof (cases "blk = NULL")
    case False
    with blk have e: "alloc_check hdr pages pool t = Some (Inr (pool, blk))"
      by (subst alloc_check.simps) simp
    with ac False obtain a b where ab: "blk = Blk a" "a \<in> set (head ?l)"
      "mem pool a = Some b" "free_slots b \<noteq> 0" and i: "pool_inv hdr (pool\<lparr>alloc_flag := 0\<rparr>)"
      by auto
    from t d(1) have "?l \<in> set (block_lists pool)" by simp
    with al ab(2) have "a AND (PAGE_SIZE - 1) = 0" by (auto simp: pages_aligned_def)
    with e ab i show ?thesis by auto
  next
    case True
    with blk d(2) have e: "alloc_check hdr pages pool t =
        Some (alloc_block hdr pages (pool\<lparr>alloc_flag := 1\<rparr>) t)"
      by (subst alloc_check.simps) simp
    show ?thesis
    proof (cases pages)
      case None
      with e show ?thesis by (simp add: alloc_block_def)
    next
      case (Some p)
      obtain a raw where p: "p = (a, raw)" by (cases p)
      from alloc_block_returns [OF inv t _ blk [unfolded True]] pg Some p obtain pool1 where
        ab: "alloc_block hdr pages (pool\<lparr>alloc_flag := 1\<rparr>) t = Inr (pool1, Blk a)" by auto
      from alloc_block_inv [OF inv t pg ab] obtain b where
        i: "pool_inv hdr (pool1\<lparr>alloc_flag := 0\<rparr>)" and
        b: "a \<in> set (head (block_lists pool1 ! t))" "mem pool1 a = Some b" "free_slots b \<noteq> 0"
        by auto
      from al Some p have a: "a AND (PAGE_SIZE - 1) = 0" by (simp add: pages_aligned_def)
      from ab Some p have "\<exists>l. block_lists pool1 = (block_lists pool)[t := l]"
        by (auto simp: alloc_block_def Let_def split: sum.splits)
      then have o: "\<forall>t'. t' \<noteq> t \<longrightarrow> block_lists pool1 ! t' = block_lists pool ! t'"
        by auto
      from e ab i b a o show ?thesis by auto
    qed
  qed
qed

lemma alloc_found_result:
  assumes inv: "pool_inv hdr (pool1\<lparr>alloc_flag := 0\<rparr>)" and t: "t < ARRAY_SIZE_block_desc"
    and a: "a \<in> set (head (block_lists pool1 ! t))"
    and b: "mem pool1 a = Some b" "free_slots b \<noteq> 0"
  shows "\<exists>pool2 s b2. alloc_found hdr pool1 t (Blk a) =
           Inr (pool2, metadata_to_handle a (of_nat t) (of_nat s)) \<and>
         s < slots_per_block (block_desc hdr ! t) \<and> slot_info b ! s = SLOT_FREE \<and>
         block_lists pool2 = block_lists pool1 \<and>
         mem pool2 a = Some b2 \<and> slot_info b2 ! s = SLOT_OCCUPIED"
proof -
  let ?p = "pool1\<lparr>alloc_flag := 0\<rparr>"
  let ?n = "slots_per_block (block_desc hdr ! t)"
  let ?s = "first_free_slot (b\<lparr>free_slots := free_slots b - 1\<rparr>) ?n 0"
  note d = pool_invD [OF inv]
  from a have a': "a \<in> set (head (block_lists ?p ! t))" by simp
  from listed_block [OF d(5) t a'] b(1) have len: "length (slot_info b) = MAX_SLOTS"
    and zb: "ZB_I1 ?n b" by auto
  from first_free_slot_found [OF zb b(2)] have s: "?s < ?n" "?s < length (slot_info b)"
    "slot_info b ! ?s = SLOT_FREE" by simp_all
  let ?b2 = "b\<lparr>free_slots := free_slots b - 1, slot_info := (slot_info b)[?s := SLOT_OCCUPIED]\<rparr>"
  from s(2) len b(1) have f: "alloc_found hdr pool1 t (Blk a) =
      Inr (pool1\<lparr>mem := (mem pool1)(a \<mapsto> ?b2), alloc_flag := 0\<rparr>,
           metadata_to_handle a (of_nat t) (of_nat ?s))"
    by (simp add: alloc_found_def Let_def)
  let ?p2 = "pool1\<lparr>mem := (mem pool1)(a \<mapsto> ?b2), alloc_flag := 0\<rparr>"
  from s(2) have "slot_info ?b2 ! ?s = SLOT_OCCUPIED" by simp
  with f s have "alloc_found hdr pool1 t (Blk a) =
           Inr (?p2, metadata_to_handle a (of_nat t) (of_nat ?s)) \<and>
         ?s < slots_per_block (block_desc hdr ! t) \<and> slot_info b ! ?s = SLOT_FREE \<and>
         block_lists ?p2 = block_lists pool1 \<and>
         mem ?p2 a = Some ?b2 \<and> slot_info ?b2 ! ?s = SLOT_OCCUPIED"
    by simp
  then show ?thesis by blast
qed

lemma zblock_alloc_result:
  assumes inv: "pool_inv hdr pool" and pg: "pages_ok pool pages"
    and al: "pages_aligned pool pages"
    and sz: "sz \<noteq> 0" "sz \<le> PAGE_SIZE"
    and t: "select_block_type hdr sz 0 < ARRAY_SIZE_block_desc"
  shows "(pages = None \<and> zblock_alloc hdr pages pool sz = Some (Inr (pool, Inl ENOMEM))) \<or>
    (\<exists>pool' h a bt slot.
       zblock_alloc hdr pages pool sz = Some (Inr (pool', Inr h)) \<and>
       handle_to_metadata h = (a, bt, slot) \<and>
       unat bt = select_block_type hdr sz 0 \<and>
       a \<in> set (head (block_lists pool' ! select_block_type hdr sz 0)) \<and>
       unat slot < slots_per_block (block_desc hdr ! select_block_type hdr sz 0) \<and>
       (\<exists>b. mem pool' a = Some b \<and> slot_info b ! unat slot = SLOT_OCCUPIED) \<and>
       (\<forall>t'. t' \<noteq> select_block_type hdr sz 0 \<longrightarrow>
          block_lists pool' ! t' = block_lists pool ! t'))"
proof -
  let ?t = "select_block_type hdr sz 0"
  note d = pool_invD [OF inv]
  from sz t have "\<not> PAGE_SIZE < sz" and "\<not> ARRAY_SIZE_block_desc \<le> ?t"
    by simp_all
  with sz have z: "zblock_alloc hdr pages pool sz =
      (case alloc_check hdr pages pool ?t of
         None \<Rightarrow> None
       | Some (Inl f) \<Rightarrow> Some (Inl f)
       | Some (Inr (pool1, block)) \<Rightarrow>
           if block = NULL then Some (Inr (pool1\<lparr>alloc_flag := 0\<rparr>, Inl ENOMEM))
           else
             (case alloc_found hdr pool1 ?t block of
                Inl f \<Rightarrow> Some (Inl f)
              | Inr (pool2, handle) \<Rightarrow> Some (Inr (pool2, Inr handle))))"
    by (simp add: zblock_alloc_def Let_def)
  from alloc_check_result [OF inv t pg al] show ?thesis
  proof
    assume n: "pages = None \<and>
      alloc_check hdr pages pool ?t = Some (Inr (pool\<lparr>alloc_flag := 1\<rparr>, NULL))"
    then have pn: "pages = None"
      and ac: "alloc_check hdr pages pool ?t = Some (Inr (pool\<lparr>alloc_flag := 1\<rparr>, NULL))"
      by blast+
    from d(2) have "pool\<lparr>alloc_flag := 0\<rparr> = pool" by simp
    then have "zblock_alloc hdr pages pool sz = Some (Inr (pool, Inl ENOMEM))"
      unfolding z ac by simp
    with pn show ?thesis by blast
  next
    assume "\<exists>pool1 a b. alloc_check hdr pages pool ?t = Some (Inr (pool1, Blk a)) \<and>
       a AND (PAGE_SIZE - 1) = 0 \<and> pool_inv hdr (pool1\<lparr>alloc_flag := 0\<rparr>) \<and>
       a \<in> set (head (block_lists pool1 ! ?t)) \<and> mem pool1 a = Some b \<and> free_slots b \<noteq> 0 \<and>
       (\<forall>t'. t' \<noteq> ?t \<longrightarrow> block_lists pool1 ! t' = block_lists pool ! t')"
    then obtain pool1 a b where
      ac: "alloc_check hdr pages pool ?t = Some (Inr (pool1, Blk a))"
      and a: "a AND (PAGE_SIZE - 1) = 0"
      and i: "pool_inv hdr (pool1\<lparr>alloc_flag := 0\<rparr>)"
      and l: "a \<in> set (head (block_lists pool1 ! ?t))"
      and b: "mem pool1 a = Some b" "free_slots b \<noteq> 0"
      and o: "\<forall>t'. t' \<noteq> ?t \<longrightarrow> block_lists pool1 ! t' = block_lists pool ! t'"
      by blast
    from alloc_found_result [OF i t l b] obtain pool2 s b2 where
      af: "alloc_found hdr pool1 ?t (Blk a) =
             Inr (pool2, metadata_to_handle a (of_nat ?t) (of_nat s))"
      and s: "s < slots_per_block (block_desc hdr ! ?t)"
      and bl: "block_lists pool2 = block_lists pool1"
      and b2: "mem pool2 a = Some b2" "slot_info b2 ! s = SLOT_OCCUPIED"
      by blast
    from slots_per_block_bounds [OF t, of hdr] s have s32: "s < 32"
      by (simp add: MAX_SLOTS_def SLOT_BITS_def)
    then have us: "unat (of_nat s :: 32 word) = s" by (simp add: unat_of_nat)
    from t have ut: "unat (of_nat ?t :: 32 word) = ?t"
      by (simp add: unat_of_nat ARRAY_SIZE_block_desc_def)
    from t ut have t128: "unat (of_nat ?t :: 32 word) < 128"
      by (simp add: ARRAY_SIZE_block_desc_def)
    from s32 us have s32': "unat (of_nat s :: 32 word) < 32" by simp
    have h: "handle_to_metadata (metadata_to_handle a (of_nat ?t) (of_nat s)) =
        (a, of_nat ?t, of_nat s)"
      by (rule handle_roundtrip [OF a t128 s32'])
    from z ac af have r: "zblock_alloc hdr pages pool sz =
        Some (Inr (pool2, Inr (metadata_to_handle a (of_nat ?t) (of_nat s))))"
      by simp
    from r h ut us s l bl b2 o have
      "zblock_alloc hdr pages pool sz =
         Some (Inr (pool2, Inr (metadata_to_handle a (of_nat ?t) (of_nat s)))) \<and>
       handle_to_metadata (metadata_to_handle a (of_nat ?t) (of_nat s)) =
         (a, of_nat ?t, of_nat s) \<and>
       unat (of_nat ?t :: 32 word) = ?t \<and>
       a \<in> set (head (block_lists pool2 ! ?t)) \<and>
       unat (of_nat s :: 32 word) < slots_per_block (block_desc hdr ! ?t) \<and>
       (\<exists>b. mem pool2 a = Some b \<and> slot_info b ! unat (of_nat s :: 32 word) = SLOT_OCCUPIED) \<and>
       (\<forall>t'. t' \<noteq> ?t \<longrightarrow> block_lists pool2 ! t' = block_lists pool ! t')"
      by simp
    then show ?thesis by blast
  qed
qed

text \<open>
  C3. \<^verbatim>\<open>zblock_alloc\<close> with size 0 returns \<^verbatim>\<open>-EINVAL\<close> and with a size above
  \<^verbatim>\<open>PAGE_SIZE\<close> returns \<^verbatim>\<open>-ENOSPC\<close>, which is not \<^verbatim>\<open>-ENOMEM\<close>; the pool is the one
  passed in. For a header size with which \<^verbatim>\<open>zblock_create_pool\<close> creates pools and a size
  from 1 to \<^verbatim>\<open>PAGE_SIZE\<close>, the index the search stops at is within the table, its slot
  size is at least the size, and every earlier type's slot size is smaller. That index is
  the type \<^verbatim>\<open>zblock_alloc\<close> allocates with: on a pool between two calls, with pages from
  the page allocator, the call returns; it returns \<^verbatim>\<open>-ENOMEM\<close> and the pool as it was only
  when there are no pages, and otherwise a handle whose type field is that index, whose
  block is in the list of that type and whose slot is a slot of that type, now occupied;
  the lists of the other types are as they were.
\<close>

theorem zblock_alloc_size_class:
  "zblock_alloc hdr pages pool 0 = Some (Inr (pool, Inl EINVAL)) \<and>
   (PAGE_SIZE < sz \<longrightarrow> zblock_alloc hdr pages pool sz = Some (Inr (pool, Inl ENOSPC))) \<and>
   ENOSPC \<noteq> ENOMEM \<and>
   (zblock_create_pool hdr True \<noteq> None \<and> sz \<noteq> 0 \<and> sz \<le> PAGE_SIZE \<longrightarrow>
      select_block_type hdr sz 0 < ARRAY_SIZE_block_desc \<and>
      sz \<le> ucast (slot_size (block_desc hdr ! select_block_type hdr sz 0)) \<and>
      (\<forall>t < select_block_type hdr sz 0. ucast (slot_size (block_desc hdr ! t)) < sz)) \<and>
   (zblock_create_pool hdr True \<noteq> None \<and> sz \<noteq> 0 \<and> sz \<le> PAGE_SIZE \<and>
    pool_inv hdr pool \<and> pages_ok pool pages \<and> pages_aligned pool pages \<longrightarrow>
      (pages = None \<and> zblock_alloc hdr pages pool sz = Some (Inr (pool, Inl ENOMEM))) \<or>
      (\<exists>pool' h a bt slot.
         zblock_alloc hdr pages pool sz = Some (Inr (pool', Inr h)) \<and>
         handle_to_metadata h = (a, bt, slot) \<and>
         unat bt = select_block_type hdr sz 0 \<and>
         a \<in> set (head (block_lists pool' ! select_block_type hdr sz 0)) \<and>
         unat slot < slots_per_block (block_desc hdr ! select_block_type hdr sz 0) \<and>
         (\<exists>b. mem pool' a = Some b \<and> slot_info b ! unat slot = SLOT_OCCUPIED) \<and>
         (\<forall>t'. t' \<noteq> select_block_type hdr sz 0 \<longrightarrow>
            block_lists pool' ! t' = block_lists pool ! t')))"
proof (intro conjI impI)
  show "zblock_alloc hdr pages pool 0 = Some (Inr (pool, Inl EINVAL))"
    by (simp add: zblock_alloc_def)
next
  assume "PAGE_SIZE < sz"
  moreover from this have "sz \<noteq> 0" by auto
  ultimately show "zblock_alloc hdr pages pool sz = Some (Inr (pool, Inl ENOSPC))"
    by (simp add: zblock_alloc_def)
next
  show "ENOSPC \<noteq> ENOMEM" by simp
next
  assume a: "zblock_create_pool hdr True \<noteq> None \<and> sz \<noteq> 0 \<and> sz \<le> PAGE_SIZE"
  then have c: "\<not> ucast (slot_size (block_desc hdr ! (ARRAY_SIZE_block_desc - 1))) < PAGE_SIZE"
    by (auto simp: zblock_create_pool_def split: if_splits)
  with a show r: "select_block_type hdr sz 0 < ARRAY_SIZE_block_desc"
    using select_in_range [of hdr sz] by simp
  then show "sz \<le> ucast (slot_size (block_desc hdr ! select_block_type hdr sz 0))"
    using select_block_type_spec [of 0 hdr sz] by simp
  show "\<forall>t < select_block_type hdr sz 0. ucast (slot_size (block_desc hdr ! t)) < sz"
    using select_block_type_spec [of 0 hdr sz] by simp
next
  assume a: "zblock_create_pool hdr True \<noteq> None \<and> sz \<noteq> 0 \<and> sz \<le> PAGE_SIZE \<and>
    pool_inv hdr pool \<and> pages_ok pool pages \<and> pages_aligned pool pages"
  then have c: "\<not> ucast (slot_size (block_desc hdr ! (ARRAY_SIZE_block_desc - 1))) < PAGE_SIZE"
    by (auto simp: zblock_create_pool_def split: if_splits)
  with a have t: "select_block_type hdr sz 0 < ARRAY_SIZE_block_desc"
    using select_in_range [of hdr sz] by simp
  from a have "pool_inv hdr pool" "pages_ok pool pages" "pages_aligned pool pages"
    "sz \<noteq> 0" "sz \<le> PAGE_SIZE" by simp_all
  then show "(pages = None \<and> zblock_alloc hdr pages pool sz = Some (Inr (pool, Inl ENOMEM))) \<or>
      (\<exists>pool' h a bt slot.
         zblock_alloc hdr pages pool sz = Some (Inr (pool', Inr h)) \<and>
         handle_to_metadata h = (a, bt, slot) \<and>
         unat bt = select_block_type hdr sz 0 \<and>
         a \<in> set (head (block_lists pool' ! select_block_type hdr sz 0)) \<and>
         unat slot < slots_per_block (block_desc hdr ! select_block_type hdr sz 0) \<and>
         (\<exists>b. mem pool' a = Some b \<and> slot_info b ! unat slot = SLOT_OCCUPIED) \<and>
         (\<forall>t'. t' \<noteq> select_block_type hdr sz 0 \<longrightarrow>
            block_lists pool' ! t' = block_lists pool ! t'))"
    using t by (rule zblock_alloc_result)
qed

lemma cache_find_entry_replicate_NULL: "cache_find_entry m (replicate n NULL) = Inr NULL"
  by (induction n) simp_all

lemma example_pages:
  "pages_ok example_pool (Some (0x20000, example_block)) \<and>
   pages_aligned example_pool (Some (0x20000, example_block)) \<and>
   pages_ok example_pool None \<and> pages_aligned example_pool None"
proof -
  have e: "l \<in> set (block_lists example_pool) \<Longrightarrow> a \<in> set (head l) \<Longrightarrow> a = 0x10000" for l a
    by (auto simp: example_pool_def empty_block_list_def dest!: set_update_subset_insert [THEN subsetD])
  have "\<forall>l \<in> set (block_lists example_pool). \<forall>a \<in> set (head l). a AND (PAGE_SIZE - 1) = 0"
  proof (intro ballI)
    fix l a
    assume "l \<in> set (block_lists example_pool)" and "a \<in> set (head l)"
    then have "a = 0x10000" by (rule e)
    then show "a AND (PAGE_SIZE - 1) = 0" by (simp add: PAGE_SIZE_def PAGE_SHIFT_def)
  qed
  then show ?thesis
    by (simp add: pages_ok_def pages_aligned_def example_pool_def example_block_def
          MAX_SLOTS_def SLOT_BITS_def PAGE_SIZE_def PAGE_SHIFT_def)
qed

theorem zblock_alloc_size_class_witness:
  "zblock_alloc 64 None example_pool 4097 = Some (Inr (example_pool, Inl ENOSPC)) \<and>
   select_block_type 64 2048 0 < ARRAY_SIZE_block_desc \<and>
   (2048 :: 64 word) \<le> ucast (slot_size (block_desc 64 ! select_block_type 64 2048 0)) \<and>
   ucast (slot_size (block_desc 64 ! 20)) < (2048 :: 64 word) \<and>
   (\<exists>pool' h a slot.
      zblock_alloc 64 None example_pool 4096 = Some (Inr (pool', Inr h)) \<and>
      handle_to_metadata h = (a, 28, slot) \<and> a \<in> set (head (block_lists pool' ! 28))) \<and>
   (\<exists>pool' h a slot.
      zblock_alloc 64 (Some (0x20000, example_block)) example_pool 2048 =
        Some (Inr (pool', Inr h)) \<and>
      handle_to_metadata h = (a, 21, slot) \<and> a \<in> set (head (block_lists pool' ! 21)) \<and>
      block_lists pool' ! 28 = block_lists example_pool ! 28) \<and>
   zblock_alloc 64 None example_pool 2048 = Some (Inr (example_pool, Inl ENOMEM))"
proof -
  let ?pg = "Some (0x20000, example_block)"
  have 1: "PAGE_SIZE < 4097"
    by (simp add: PAGE_SIZE_def PAGE_SHIFT_def)
  have 2: "zblock_create_pool 64 True \<noteq> None \<and> (2048 :: 64 word) \<noteq> 0 \<and> 2048 \<le> PAGE_SIZE \<and>
      (4096 :: 64 word) \<noteq> 0 \<and> 4096 \<le> PAGE_SIZE"
    by (simp add: zblock_create_pool_def block_desc_64 ARRAY_SIZE_block_desc_def
          PAGE_SIZE_def PAGE_SHIFT_def)
  have 3: "20 < select_block_type 64 2048 0"
    by (simp add: select_block_type_64)
  note i = example_pool_inv and g = example_pages
  from example_pool_alloc have 4: "zblock_alloc 64 None example_pool 4096 \<noteq>
      Some (Inr (example_pool, Inl ENOMEM))" by auto
  have 5: "?pg \<noteq> None" by simp
  have 6: "zblock_alloc 64 None example_pool 2048 \<noteq> Some (Inr (p, Inr h))" for p h
  proof -
    have c: "alloc_check 64 None example_pool 21 =
        Some (Inr (example_pool\<lparr>alloc_flag := 1\<rparr>, NULL))"
      by (subst alloc_check.simps)
         (simp add: example_pool_def alloc_block_def cache_find_block_def empty_block_list_def
            ARRAY_SIZE_block_desc_def BLOCK_CACHE_SIZE_def cache_find_entry_replicate_NULL)
    show ?thesis
      by (simp add: zblock_alloc_def select_block_type_64 c Let_def
            PAGE_SIZE_def PAGE_SHIFT_def ARRAY_SIZE_block_desc_def)
  qed
  have 7: "unat bt = 28 \<Longrightarrow> bt = 28" "unat bt = 21 \<Longrightarrow> bt = 21" for bt :: "32 word"
    by (simp_all add: word_unat_eq_iff)
  have 8: "(28 :: nat) \<noteq> 21" by simp
  from zblock_alloc_size_class [of 64 None example_pool 4097]
  have a: "zblock_alloc 64 None example_pool 4097 = Some (Inr (example_pool, Inl ENOSPC))"
    using 1 by blast
  from zblock_alloc_size_class [of 64 None example_pool 2048] 2 3
  have b: "select_block_type 64 2048 0 < ARRAY_SIZE_block_desc \<and>
      (2048 :: 64 word) \<le> ucast (slot_size (block_desc 64 ! select_block_type 64 2048 0)) \<and>
      ucast (slot_size (block_desc 64 ! 20)) < (2048 :: 64 word)"
    by blast
  from zblock_alloc_size_class [of 64 None example_pool 4096] 2 i g 4
  have c: "\<exists>pool' h a slot.
      zblock_alloc 64 None example_pool 4096 = Some (Inr (pool', Inr h)) \<and>
      handle_to_metadata h = (a, 28, slot) \<and> a \<in> set (head (block_lists pool' ! 28))"
    unfolding select_block_type_64 using 7(1) by blast
  from zblock_alloc_size_class [of 64 ?pg example_pool 2048] 2 i g 5
  have d: "\<exists>pool' h a slot.
      zblock_alloc 64 ?pg example_pool 2048 = Some (Inr (pool', Inr h)) \<and>
      handle_to_metadata h = (a, 21, slot) \<and> a \<in> set (head (block_lists pool' ! 21)) \<and>
      block_lists pool' ! 28 = block_lists example_pool ! 28"
    unfolding select_block_type_64 using 7(2) 8 by blast
  from zblock_alloc_size_class [of 64 None example_pool 2048] 2 i g 6
  have e: "zblock_alloc 64 None example_pool 2048 = Some (Inr (example_pool, Inl ENOMEM))"
    by blast
  from a b c d e show ?thesis by blast
qed

end
